theory Spec2Isabelle
  imports Main
begin

section \<open>Text primitives of the Python runtime\<close>

text \<open>
  A Python \<open>str\<close> is modelled as a \<open>string\<close>: a list of code points below 256.
  The character classes below are those of Python 3 on that range: \<open>\s\<close> and
  \<open>str.strip\<close> use the Unicode white-space property, \<open>\d\<close> the decimal digits,
  \<open>\w\<close> the alphanumeric code points and the underscore, \<open>str.lower\<close> and
  \<open>str.upper\<close> the Unicode case mappings.
\<close>

abbreviation (input) quote :: char where
  "quote \<equiv> CHR 0x27"

definition is_space :: "char \<Rightarrow> bool" where
  "is_space c =
     (let n = (of_char c :: nat)
      in (9 \<le> n \<and> n \<le> 13) \<or> (28 \<le> n \<and> n \<le> 32) \<or> n = 133 \<or> n = 160)"

definition is_digit :: "char \<Rightarrow> bool" where
  "is_digit c = (let n = (of_char c :: nat) in 48 \<le> n \<and> n \<le> 57)"

definition is_word :: "char \<Rightarrow> bool" where
  "is_word c =
     (let n = (of_char c :: nat)
      in (48 \<le> n \<and> n \<le> 57) \<or> (65 \<le> n \<and> n \<le> 90) \<or> n = 95 \<or> (97 \<le> n \<and> n \<le> 122)
         \<or> n = 170 \<or> n = 178 \<or> n = 179 \<or> n = 181 \<or> n = 185 \<or> n = 186
         \<or> (188 \<le> n \<and> n \<le> 190) \<or> (192 \<le> n \<and> n \<le> 214)
         \<or> (216 \<le> n \<and> n \<le> 246) \<or> 248 \<le> n)"

definition lower_char :: "char \<Rightarrow> char" where
  "lower_char c =
     (let n = (of_char c :: nat)
      in if (65 \<le> n \<and> n \<le> 90) \<or> (192 \<le> n \<and> n \<le> 214) \<or> (216 \<le> n \<and> n \<le> 222)
         then char_of (n + 32) else c)"

definition lower :: "string \<Rightarrow> string" where
  "lower s = map lower_char s"

text \<open>
  \<open>str.upper\<close> maps the sharp s (223) to the two letters \<open>SS\<close>. The micro sign (181)
  and the y with diaeresis (255) go to code points above 255; the source only searches
  upper-cased text for ASCII words, which neither those code points nor the characters
  kept here in their place can be part of.
\<close>

definition upper_char :: "char \<Rightarrow> string" where
  "upper_char c =
     (let n = (of_char c :: nat)
      in if n = 223 then ''SS''
         else if (97 \<le> n \<and> n \<le> 122) \<or> (224 \<le> n \<and> n \<le> 246) \<or> (248 \<le> n \<and> n \<le> 254)
         then [char_of (n - 32)] else [c])"

definition upper :: "string \<Rightarrow> string" where
  "upper s = concat (map upper_char s)"

definition startswith :: "string \<Rightarrow> string \<Rightarrow> bool" where
  "startswith p s = (take (length p) s = p)"

text \<open>A literal of a pattern compiled with \<open>re.IGNORECASE\<close>, tried at the head of the text.\<close>

definition startswith_ci :: "string \<Rightarrow> string \<Rightarrow> bool" where
  "startswith_ci p s = (length p \<le> length s \<and> lower (take (length p) s) = lower p)"

text \<open>Python's \<open>p in s\<close>.\<close>

fun contains :: "string \<Rightarrow> string \<Rightarrow> bool" where
  "contains p [] = (p = [])"
| "contains p (c # cs) = (startswith p (c # cs) \<or> contains p cs)"

definition any_in :: "string list \<Rightarrow> string \<Rightarrow> bool" where
  "any_in words s = list_ex (\<lambda>w. contains w s) words"

definition strip :: "string \<Rightarrow> string" where
  "strip s = rev (dropWhile is_space (rev (dropWhile is_space s)))"

definition rstrip_chars :: "char \<Rightarrow> string \<Rightarrow> string" where
  "rstrip_chars x s = rev (dropWhile (\<lambda>c. c = x) (rev s))"

definition zfill :: "nat \<Rightarrow> string \<Rightarrow> string" where
  "zfill w s = replicate (w - length s) CHR ''0'' @ s"

section \<open>Substitution of every match: \<open>re.sub\<close> and \<open>str.replace\<close>\<close>

text \<open>
  A matcher is one compiled pattern tried at one position: it sees the character before
  the position (for \<open>\b\<close>) and the text from the position on, and returns the
  replacement and the length of the match. \<open>re_sub\<close> is the scan of \<open>re.sub\<close>: from
  left to right, the leftmost match is replaced and the scan resumes after it. Every
  pattern of the source matches at least one character.
\<close>

type_synonym matcher = "char option \<Rightarrow> string \<Rightarrow> (string \<times> nat) option"

function re_sub :: "matcher \<Rightarrow> char option \<Rightarrow> string \<Rightarrow> string" where
  "re_sub m prev [] = []"
| "re_sub m prev (c # cs) =
     (case m prev (c # cs) of
        None \<Rightarrow> c # re_sub m (Some c) cs
      | Some (rep, n) \<Rightarrow>
          if 0 < n then rep @ re_sub m (Some (last (take n (c # cs)))) (drop n (c # cs))
          else c # re_sub m (Some c) cs)"
  by pat_completeness auto
termination
  by (relation "measure (\<lambda>(m, prev, s). length s)") auto

definition literal :: "string \<Rightarrow> string \<Rightarrow> matcher" where
  "literal old new = (\<lambda>prev s. if startswith old s then Some (new, length old) else None)"

definition literal_ci :: "string \<Rightarrow> string \<Rightarrow> matcher" where
  "literal_ci old new = (\<lambda>prev s. if startswith_ci old s then Some (new, length old) else None)"

text \<open>\<open>s.replace(old, new)\<close>, for the non-empty \<open>old\<close> of every call in the source.\<close>

definition replace :: "string \<Rightarrow> string \<Rightarrow> string \<Rightarrow> string" where
  "replace old new s = re_sub (literal old new) None s"

section \<open>Repair pass 1: the facility identifier\<close>

text \<open>
  The pattern \<open>facility_id\s*=\s*(\d+)\<close> under \<open>re.IGNORECASE\<close>, tried at the head of
  the text: the captured digits and the length of the match. White space, the equals
  sign and the digits are disjoint classes, so the greedy quantifiers never give back.
\<close>

definition facility_pattern :: "string \<Rightarrow> (string \<times> nat) option" where
  "facility_pattern s =
     (if startswith_ci ''facility_id'' s then
        (case dropWhile is_space (drop 11 s) of
           [] \<Rightarrow> None
         | c # r \<Rightarrow>
             if c = CHR ''='' then
               (let t = dropWhile is_space r; ds = takeWhile is_digit t
                in if ds = [] then None
                   else Some (ds, length s - length (dropWhile is_digit t)))
             else None)
      else None)"

definition replace_facility_id :: "string \<Rightarrow> string" where
  "replace_facility_id facility_num =
     ''facility_id = '' @ [quote] @ zfill 4 facility_num @ [quote]"

definition facility_matcher :: matcher where
  "facility_matcher =
     (\<lambda>prev s. map_option (\<lambda>(g, n). (replace_facility_id g, n)) (facility_pattern s))"

definition fix_facility_id_format :: "string \<Rightarrow> string" where
  "fix_facility_id_format sql_query = re_sub facility_matcher None sql_query"

section \<open>Repair pass 2: function names, priority, average duration, grouping\<close>

text \<open>
  The pattern \<open>\bCOUNTIf\b\<close>: the word must not be preceded nor followed by a character
  of a word.
\<close>

definition countif_matcher :: matcher where
  "countif_matcher =
     (\<lambda>prev s.
        if startswith ''COUNTIf'' s
           \<and> (case prev of None \<Rightarrow> True | Some p \<Rightarrow> \<not> is_word p)
           \<and> (case drop 7 s of [] \<Rightarrow> True | c # r \<Rightarrow> \<not> is_word c)
        then Some (''countIf'', 7) else None)"

definition fix_countif :: "string \<Rightarrow> string" where
  "fix_countif sql_query = re_sub countif_matcher None sql_query"

text \<open>
  The pattern \<open>round\(AVG\(dateDiff\([^)]+\)\)/60\.0, 2\) AS avg_time_minutes\<close>: the
  run \<open>[^)]+\<close> ends at the first closing parenthesis, where the rest must follow.
\<close>

definition avg_time_canonical :: string where
  "avg_time_canonical =
     ''round(AVG(dateDiff('second', scheduled_time, completed_time))/60.0, 2) AS avg_time_minutes''"

definition avg_time_matcher :: matcher where
  "avg_time_matcher =
     (\<lambda>prev s.
        let head = ''round(AVG(dateDiff(''; tail = ''))/60.0, 2) AS avg_time_minutes'';
            t = drop (length head) s;
            body = takeWhile (\<lambda>c. c \<noteq> CHR '')'') t
        in if startswith head s \<and> body \<noteq> [] \<and> startswith tail (drop (length body) t)
           then Some (avg_time_canonical, length head + length body + length tail)
           else None)"

definition add_group_by :: "string \<Rightarrow> string" where
  "add_group_by sql_query =
     (if contains ''ORDER BY'' (upper sql_query)
      then replace ''ORDER BY'' ''GROUP BY porter_user_id ORDER BY'' sql_query
      else rstrip_chars CHR '';'' sql_query @ '' GROUP BY porter_user_id'')"

definition fix_sql_functions :: "string \<Rightarrow> string" where
  "fix_sql_functions sql_query =
     (let s1 = fix_countif sql_query;
          s2 = (if contains ''priority > 0'' s1
                then replace ''priority > 0'' ''priority = 1'' s1 else s1);
          s3 = (if contains ''dateDiff'' s2 \<and> contains ''AVG('' s2 \<and> contains ''avg_time'' s2
                then re_sub avg_time_matcher None s2 else s2);
          s4 = (if contains ''COUNT('' (upper s3) \<and> \<not> contains ''GROUP BY'' (upper s3)
                   \<and> contains ''porter_user_id'' s3
                then add_group_by s3 else s3);
          s5 = (if contains ''SELECT porter_user_id'' s4 \<and> contains ''round('' s4
                   \<and> \<not> contains ''GROUP BY'' (upper s4)
                then add_group_by s4 else s4)
      in s5)"

section \<open>Repair pass 3: null and empty\<close>

text \<open>
  The patterns \<open>field\s+IS\s+NULL\<close> and \<open>field\s*=\s*''\<close> under \<open>re.IGNORECASE\<close>.
\<close>

definition is_null_pattern :: "string \<Rightarrow> string \<Rightarrow> nat option" where
  "is_null_pattern field s =
     (let t1 = drop (length field) s; w1 = takeWhile is_space t1;
          t2 = drop (length w1) t1; t3 = drop 2 t2; w2 = takeWhile is_space t3;
          t4 = drop (length w2) t3
      in if startswith_ci field s \<and> w1 \<noteq> [] \<and> startswith_ci ''IS'' t2 \<and> w2 \<noteq> []
            \<and> startswith_ci ''NULL'' t4
         then Some (length field + length w1 + 2 + length w2 + 4) else None)"

definition eq_empty_pattern :: "string \<Rightarrow> string \<Rightarrow> nat option" where
  "eq_empty_pattern field s =
     (let t1 = drop (length field) s; w1 = takeWhile is_space t1;
          t2 = drop (length w1) t1; t3 = drop 1 t2; w2 = takeWhile is_space t3;
          t4 = drop (length w2) t3
      in if startswith_ci field s \<and> startswith ''='' t2 \<and> startswith [quote, quote] t4
         then Some (length field + length w1 + 1 + length w2 + 2) else None)"

definition null_or_empty :: "string \<Rightarrow> string" where
  "null_or_empty field =
     ''('' @ field @ '' IS NULL OR '' @ field @ '' = '' @ [quote, quote] @ '')''"

definition sub_is_null :: "string \<Rightarrow> string \<Rightarrow> string" where
  "sub_is_null field sql_query =
     re_sub (\<lambda>prev s. map_option (\<lambda>n. (null_or_empty field, n)) (is_null_pattern field s))
       None sql_query"

definition sub_eq_empty :: "string \<Rightarrow> string \<Rightarrow> string" where
  "sub_eq_empty field sql_query =
     re_sub (\<lambda>prev s. map_option (\<lambda>n. (null_or_empty field, n)) (eq_empty_pattern field s))
       None sql_query"

definition fix_null_empty_handling :: "string \<Rightarrow> string \<Rightarrow> string" where
  "fix_null_empty_handling sql_query user_question =
     (let question_lower = lower user_question
      in if contains ''null'' question_lower \<or> contains ''empty'' question_lower then
           (let s1 = (if contains ''comp_manually'' question_lower then
                        (if contains ''null'' question_lower
                         then sub_is_null ''comp_manually'' sql_query
                         else if contains ''empty'' question_lower
                         then sub_eq_empty ''comp_manually'' sql_query
                         else sql_query)
                      else sql_query)
            in fold (\<lambda>field s.
                       if contains field question_lower
                       then sub_eq_empty field (sub_is_null field s) else s)
                 [''comments'', ''remarks'', ''porter_user_id'', ''patient_id''] s1)
         else sql_query)"

section \<open>Repair pass 4: dates and time zones\<close>

definition quoted :: "string \<Rightarrow> string" where
  "quoted s = quote # s @ [quote]"

definition to_timezone :: "string \<Rightarrow> string" where
  "to_timezone col = ''toTimeZone('' @ col @ '', 'Asia/Kolkata')''"

definition localize_to_date :: "string \<Rightarrow> string \<Rightarrow> string" where
  "localize_to_date col sql_query =
     replace (''toDate('' @ col @ '')'') (''toDate('' @ to_timezone col @ '')'') sql_query"

fun join :: "string \<Rightarrow> string list \<Rightarrow> string" where
  "join sep [] = []"
| "join sep [x] = x"
| "join sep (x # y # ys) = x @ sep @ join sep (y # ys)"

definition timestamp_cols :: "string list" where
  "timestamp_cols =
     [''scheduled_time'', ''start_time'', ''end_time'', ''assigned_time'',
      ''accepted_time'', ''arrived_time'', ''cancelled_time'', ''onhold_time'',
      ''inprogress_time'', ''rejected_time'', ''completed_time'']"

definition basic_columns :: "string list" where
  "basic_columns =
     [''id'', ''facility_id'', ''requester_user_id'', ''porter_user_id'',
      ''request_performer_status'', ''priority'', ''comments'']"

definition select_clause :: string where
  "select_clause =
     ''SELECT '' @ join '', ''
        (basic_columns @ map (\<lambda>col. to_timezone col @ '' as '' @ col) timestamp_cols)"

text \<open>
  The pattern \<open>(january|...|december)\s+2025\<close> of \<open>re.search\<close>: the first position of
  the text where a month name, white space and the year follow each other.
\<close>

definition month_table :: "(string \<times> nat) list" where
  "month_table =
     [(''january'', 1), (''february'', 2), (''march'', 3), (''april'', 4), (''may'', 5),
      (''june'', 6), (''july'', 7), (''august'', 8), (''september'', 9), (''october'', 10),
      (''november'', 11), (''december'', 12)]"

definition month_at :: "string \<Rightarrow> string option" where
  "month_at s =
     find (\<lambda>w. let t = drop (length w) s; ws = takeWhile is_space t
               in startswith w s \<and> ws \<noteq> [] \<and> startswith ''2025'' (drop (length ws) t))
          (map fst month_table)"

fun month_search :: "string \<Rightarrow> string option" where
  "month_search [] = None"
| "month_search (c # cs) =
     (case month_at (c # cs) of Some w \<Rightarrow> Some w | None \<Rightarrow> month_search cs)"

text \<open>Python's \<open>str\<close> of an integer, as the f-strings of the source format it.\<close>

definition digit_char :: "nat \<Rightarrow> char" where
  "digit_char d = char_of (48 + d)"

function show_nat :: "nat \<Rightarrow> string" where
  "show_nat n = (if n < 10 then [digit_char n] else show_nat (n div 10) @ [digit_char (n mod 10)])"
  by pat_completeness auto
termination
  by (relation "measure id") auto

declare show_nat.simps [simp del]

definition show_int :: "int \<Rightarrow> string" where
  "show_int i = (if i < 0 then CHR ''-'' # show_nat (nat (- i)) else show_nat (nat i))"

definition hour_expr :: string where
  "hour_expr = ''toHour(toTimeZone(scheduled_time, 'Asia/Kolkata'))''"

definition enhance_date_queries :: "string \<Rightarrow> string \<Rightarrow> string" where
  "enhance_date_queries sql_query user_question =
     (let question_lower = lower user_question;
          s1 = localize_to_date ''scheduled_time'' sql_query;
          s2 = fold localize_to_date
                 [''start_time'', ''end_time'', ''completed_time'', ''assigned_time''] s1;
          s3 = (if contains ''SELECT *'' s2
                   \<and> any_in [''show'', ''list'', ''display''] question_lower
                   \<and> \<not> contains ''count'' question_lower
                then replace ''SELECT *'' select_clause s2 else s2);
          s4 = (if contains ''june 2'' question_lower then
                  (let a = replace (quoted ''2025-06-01'') (quoted ''2025-06-02'') s3;
                       b = replace (quoted ''06-01'') (quoted ''2025-06-02'') a;
                       c = replace (quoted ''06-02'') (quoted ''2025-06-02'') b
                   in if \<not> contains ''toDate(toTimeZone(scheduled_time, 'Asia/Kolkata'))'' c
                         \<and> contains ''toDate(scheduled_time)'' c
                      then replace ''toDate(scheduled_time)''
                             ''toDate(toTimeZone(scheduled_time, 'Asia/Kolkata'))'' c
                      else c)
                else s3);
          s5 = (if contains ''june 1'' question_lower
                then replace (quoted ''06-02'') (quoted ''2025-06-01'')
                       (replace (quoted ''2025-06-02'') (quoted ''2025-06-01'') s4)
                else s4);
          s6 = (if contains ''may 31'' question_lower
                then re_sub (literal_ci (quoted ''May 31'') (quoted ''2025-05-31'')) None
                       (replace (quoted ''05-31'') (quoted ''2025-05-31'') s5)
                else s5);
          s7 = (if contains ''last request'' question_lower \<and> \<not> contains ''order by'' (lower s6)
                then rstrip_chars CHR '';'' s6 @ '' ORDER BY scheduled_time DESC LIMIT 1''
                else s6);
          s8 = (if (contains ''hourly'' question_lower \<or> contains ''hour by hour'' question_lower)
                   \<and> contains (hour_expr @ '' AS request_hour'') s7
                then replace ''GROUP BY request_hour ORDER BY request_hour''
                       (''GROUP BY '' @ hour_expr @ '' ORDER BY hour_number'')
                       (replace (hour_expr @ '' AS request_hour'')
                          (''concat(toString('' @ hour_expr @ ''), ':00 - ', toString(''
                             @ hour_expr @ ''), ':59') AS time_range, '' @ hour_expr
                             @ '' AS hour_number'') s7)
                else s7);
          s9 = (case month_search question_lower of
                  None \<Rightarrow> s8
                | Some month_name \<Rightarrow>
                    (let month_num = (case map_of month_table month_name of
                                        Some k \<Rightarrow> k | None \<Rightarrow> 6)
                     in if contains ''per day'' question_lower \<and> \<not> contains ''GROUP BY'' (upper s8)
                        then
                          (let a = replace ''FROM fact_porter_request''
                                     (''FROM fact_porter_request WHERE toYear(''
                                        @ to_timezone ''scheduled_time'' @ '') = 2025 AND toMonth(''
                                        @ to_timezone ''scheduled_time'' @ '') = '' @ show_nat month_num)
                                     s8
                           in if contains ''SELECT'' (upper a) \<and> \<not> contains ''GROUP BY'' (upper a)
                              then replace ''ORDER BY''
                                     (''GROUP BY toDate('' @ to_timezone ''scheduled_time''
                                        @ '') ORDER BY'') a
                              else a)
                        else s8))
      in s9)"

section \<open>The repair pipeline\<close>

text \<open>The four passes in the order in which \<open>convert_to_sql\<close> applies them.\<close>

definition repair_pipeline :: "string \<Rightarrow> string \<Rightarrow> string" where
  "repair_pipeline sql_query user_question =
     enhance_date_queries
       (fix_null_empty_handling
          (fix_sql_functions (fix_facility_id_format sql_query)) user_question)
       user_question"

section \<open>The explanation of a query\<close>

text \<open>
  \<open>_generate_explanation\<close>: a cascade over the lower-cased question, then over the
  lower-cased query. The last \<open>else\<close> of the source holds a nested function definition
  and no \<open>return\<close>; a call that reaches it returns Python's \<open>None\<close>, here \<open>None\<close>.
\<close>

definition generate_explanation :: "string \<Rightarrow> string \<Rightarrow> string option" where
  "generate_explanation question sql =
     (let question_lower = lower question; sql_lower = lower sql
      in if any_in [''count'', ''how many'', ''number of''] question_lower then
           (if contains ''facility'' question_lower then
              Some ''This query counts the total number of requests for each facility in the database.''
            else if contains ''porter'' question_lower then
              Some ''This query counts how many requests each porter has handled.''
            else if contains ''status'' question_lower then
              Some ''This query breaks down the total requests by their current status.''
            else if contains ''asset category'' question_lower then
              Some ''This query shows the distribution of requests across different asset categories.''
            else if contains ''service group'' question_lower then
              Some ''This query counts requests grouped by their service group classification.''
            else if contains ''priority'' question_lower then
              Some ''This query shows how many requests exist at each priority level.''
            else
              Some ''This query counts records and groups them by the specified criteria.'')
         else if any_in [''tat'', ''turnaround'', ''average time''] question_lower then
           (if contains ''minimum'' question_lower \<or> contains ''min'' question_lower then
              Some ''This query finds which porter has the fastest average turnaround time (from scheduled to completed).''
            else if contains ''maximum'' question_lower \<or> contains ''max'' question_lower then
              Some ''This query identifies which porter has the slowest average turnaround time.''
            else if contains ''facility'' question_lower then
              Some ''This query calculates the average turnaround time for each facility, showing operational efficiency.''
            else if contains ''porter'' question_lower then
              Some ''This query shows each porter's average turnaround time performance.''
            else if contains ''over'' question_lower \<and> contains ''minutes'' question_lower then
              Some ''This query finds all requests that took longer than the specified time to complete.''
            else
              Some ''This query calculates turnaround time (the duration from when a request was scheduled to when it was completed).'')
         else if any_in [''cancelled'', ''completed'', ''in progress'', ''assigned''] question_lower then
           (if contains ''cancelled'' question_lower then
              (if contains ''facility'' question_lower then
                 Some ''This query shows all cancelled requests for the specified facility.''
               else
                 Some ''This query retrieves all requests that were cancelled before completion.'')
            else if contains ''completed'' question_lower then
              Some ''This query shows all successfully completed requests.''
            else if contains ''in progress'' question_lower then
              Some ''This query finds all requests that are currently being worked on.''
            else if contains ''assigned'' question_lower then
              Some ''This query shows requests that have been assigned to porters but may not have started yet.''
            else
              Some ''This query filters requests based on their current status.'')
         else if any_in [''today'', ''yesterday'', ''may'', ''june'', ''date'', ''last week'', ''between'']
                   question_lower then
           (if contains ''today'' question_lower then
              Some ''This query shows all requests scheduled for today.''
            else if contains ''yesterday'' question_lower then
              Some ''This query shows all requests from yesterday.''
            else if contains ''last week'' question_lower \<or> contains ''past'' question_lower then
              Some ''This query retrieves requests from the specified time period.''
            else if contains ''between'' question_lower then
              Some ''This query shows requests within the specified date range.''
            else
              Some ''This query filters requests based on their scheduled date.'')
         else if contains ''porter'' question_lower then
           (if contains ''most'' question_lower then
              Some ''This query identifies the porter who has handled the highest number of requests.''
            else if contains ''performance'' question_lower then
              Some ''This query analyzes porter performance metrics including completion rates and efficiency.''
            else if contains ''workload'' question_lower then
              Some ''This query shows how requests are distributed among different porters.''
            else if contains ''efficiency'' question_lower then
              Some ''This query calculates various efficiency metrics for each porter.''
            else
              Some ''This query analyzes porter-related data and performance.'')
         else if contains ''facility'' question_lower then
           (if contains ''most'' question_lower then
              Some ''This query identifies which facility generates the highest volume of requests.''
            else if contains ''zero'' question_lower then
              Some ''This query finds facilities that have no cancelled requests.''
            else
              Some ''This query analyzes data grouped by facility.'')
         else if any_in [''percentage'', ''rate'', ''%''] question_lower then
           Some ''This query calculates percentage or rate metrics to show proportional relationships in the data.''
         else if any_in [''unique'', ''distribution'', ''common'', ''patterns''] question_lower then
           Some ''This query explores data patterns and distributions to provide insights.''
         else if contains ''and'' question_lower \<or> contains ''with'' question_lower then
           Some ''This query applies multiple filters to find records matching all specified criteria.''
         else if contains ''group by'' sql_lower then
           Some ''This query groups data by specific criteria and provides aggregate information.''
         else if contains ''order by'' sql_lower \<and> contains ''desc'' sql_lower then
           Some ''This query sorts results in descending order to show the highest values first.''
         else if contains ''join'' sql_lower then
           Some ''This query combines data from multiple tables to provide enriched information.''
         else None)"

section \<open>The translator\<close>

text \<open>
  \<open>convert_to_sql\<close>. The call of the text-generation service is a parameter: it
  returns the text of the answer, or raises, which is \<open>Inl\<close> of the message of the
  exception. The \<open>except\<close> branch of the source catches every exception of the body.
\<close>

type_synonym backend = "string \<Rightarrow> string + string"

definition convert_to_sql :: "backend \<Rightarrow> string \<Rightarrow> string \<times> string option" where
  "convert_to_sql complete user_question =
     (case complete user_question of
        Inl e \<Rightarrow> ('''', Some (''Error generating SQL: '' @ e))
      | Inr content \<Rightarrow>
          (let sql_query = strip (replace ''```'' '''' (replace ''```sql'' '''' (strip content)));
               sql_query = repair_pipeline sql_query user_question
           in (sql_query, generate_explanation user_question sql_query)))"

section \<open>The query executor\<close>

text \<open>
  A result table: its columns, each with its name and whether its dtype is numeric, and
  the number of its rows. \<open>df.empty\<close> holds when either axis has length zero.
\<close>

record dataframe =
  df_columns :: "(string \<times> bool) list"
  df_len :: nat

definition df_empty :: "dataframe \<Rightarrow> bool" where
  "df_empty df = (df_columns df = [] \<or> df_len df = 0)"

definition empty_dataframe :: dataframe where
  "empty_dataframe = \<lparr>df_columns = [], df_len = 0\<rparr>"

text \<open>
  \<open>execute_query\<close>: \<open>limited_query\<close> is the text handed to the database client, which
  returns a table or raises (\<open>Inl\<close>). A \<open>limit\<close> that is \<open>None\<close> or zero is false.
\<close>

definition limited_query :: "string \<Rightarrow> int option \<Rightarrow> string" where
  "limited_query query limit =
     (case limit of
        None \<Rightarrow> query
      | Some l \<Rightarrow>
          if l \<noteq> 0 \<and> l > 0 \<and> startswith ''SELECT'' (upper (strip query))
             \<and> \<not> contains ''LIMIT'' (upper query)
          then query @ '' LIMIT '' @ show_int l
          else query)"

type_synonym client = "string \<Rightarrow> string + dataframe"

definition execute_query :: "client \<Rightarrow> string \<Rightarrow> int option \<Rightarrow> dataframe \<times> bool" where
  "execute_query query_df query limit =
     (case query_df (limited_query query limit) of
        Inr result \<Rightarrow> (result, True)
      | Inl e \<Rightarrow> (empty_dataframe, False))"

section \<open>The chart decision\<close>

definition should_create_chart :: "dataframe \<Rightarrow> string \<Rightarrow> bool" where
  "should_create_chart df question =
     (if df_empty df \<or> df_len df > 100 then False
      else
        (let chart_keywords =
               [''count'', ''average'', ''sum'', ''total'', ''by'', ''group'', ''distribution'',
                ''trends'', ''patterns'', ''volume'', ''per day'', ''daily'', ''hourly''];
             has_numeric = list_ex snd (df_columns df);
             has_categorical = (length (df_columns df) \<ge> 2);
             should_chart = (any_in chart_keywords (lower question) \<and> has_numeric
                             \<and> has_categorical \<and> df_len df \<ge> 2)
         in if any_in [''daily'', ''hourly'', ''per day'', ''trends'', ''distribution'', ''patterns'']
                 (lower question)
            then True else should_chart))"

section \<open>The orchestrator and its interaction log\<close>

record log_entry =
  log_timestamp :: string
  log_question :: string
  log_sql :: "string option"
  log_row_count :: "nat option"
  log_success :: bool
  log_error :: "string option"

text \<open>
  The state of a session: the conversation history of the source, and a trace of the
  queries handed to \<open>execute_query\<close>, kept to state which requests reach the executor.
\<close>

record session =
  conversation_history :: "log_entry list"
  executed :: "(string \<times> int option) list"

text \<open>\<open>_log_interaction\<close>: append, then keep the last 200 entries.\<close>

definition log_interaction :: "log_entry \<Rightarrow> session \<Rightarrow> session" where
  "log_interaction entry st =
     (let h = conversation_history st @ [entry]
      in st\<lparr>conversation_history := (if length h > 200 then drop (length h - 200) h else h)\<rparr>)"

text \<open>
  The result of \<open>process_query\<close> is a dictionary; a key that a branch does not set is
  \<open>None\<close>. The cross mark U+274C that opens the messages of a failure lies outside the
  code points of \<open>string\<close> and is kept as the three bytes of its UTF-8 form.
\<close>

definition cross_mark :: string where
  "cross_mark = [char_of (226 :: nat), char_of (157 :: nat), char_of (140 :: nat)]"

record response =
  res_success :: bool
  res_error :: "string option"
  res_summary :: string
  res_sql :: "string option"
  res_data :: "dataframe option"
  res_chart :: "string option"
  res_explanation :: "string option"
  res_row_count :: "nat option"

text \<open>
  The collaborators of the orchestrator: the text-generation service, the database
  client, the two formatting steps and the chart construction (each returns its result
  or raises, \<open>Inl\<close>), and the clock read for the time stamps.
\<close>

record collaborators =
  complete :: backend
  query_df :: client
  format_timezone :: "dataframe \<Rightarrow> string + dataframe"
  generate_summary :: "dataframe \<Rightarrow> string \<Rightarrow> string + string"
  create_chart :: "dataframe \<Rightarrow> string \<Rightarrow> string + string option"
  now :: string

definition failure_on_exception :: "collaborators \<Rightarrow> string \<Rightarrow> string \<Rightarrow> session \<Rightarrow> response \<times> session" where
  "failure_on_exception env user_question e st =
     (\<lparr>res_success = False, res_error = Some e,
       res_summary = cross_mark @ '' An error occurred while processing your request.'',
       res_sql = None, res_data = None, res_chart = None, res_explanation = None,
       res_row_count = None\<rparr>,
      log_interaction
        \<lparr>log_timestamp = now env, log_question = user_question, log_sql = None,
         log_row_count = None, log_success = False, log_error = Some e\<rparr> st)"

definition process_query :: "collaborators \<Rightarrow> string \<Rightarrow> int option \<Rightarrow> session \<Rightarrow> response \<times> session" where
  "process_query env user_question row_limit st =
     (case convert_to_sql (complete env) user_question of (sql_query, explanation) \<Rightarrow>
        if sql_query = [] then
          (\<lparr>res_success = False, res_error = Some ''Failed to generate SQL query'',
            res_summary = cross_mark @ '' Unable to understand your question. Please try rephrasing.'',
            res_sql = None, res_data = None, res_chart = None, res_explanation = None,
            res_row_count = None\<rparr>, st)
        else
          (let st1 = st\<lparr>executed := executed st @ [(sql_query, row_limit)]\<rparr>
           in case execute_query (query_df env) sql_query row_limit of (df, success) \<Rightarrow>
                if \<not> success then
                  (\<lparr>res_success = False, res_error = Some ''Query execution failed'',
                    res_summary = cross_mark @ '' Database query failed. Please try a different question.'',
                    res_sql = Some sql_query, res_data = None, res_chart = None,
                    res_explanation = None, res_row_count = None\<rparr>, st1)
                else
                  (case format_timezone env df of
                     Inl e \<Rightarrow> failure_on_exception env user_question e st1
                   | Inr df_formatted \<Rightarrow>
                       (case generate_summary env df user_question of
                          Inl e \<Rightarrow> failure_on_exception env user_question e st1
                        | Inr summary \<Rightarrow>
                            (case (if should_create_chart df user_question
                                   then create_chart env df user_question else Inr None) of
                               Inl e \<Rightarrow> failure_on_exception env user_question e st1
                             | Inr chart \<Rightarrow>
                                 (\<lparr>res_success = True, res_error = None, res_summary = summary,
                                   res_sql = Some sql_query, res_data = Some df_formatted,
                                   res_chart = chart, res_explanation = explanation,
                                   res_row_count = Some (df_len df)\<rparr>,
                                  log_interaction
                                    \<lparr>log_timestamp = now env, log_question = user_question,
                                     log_sql = Some sql_query, log_row_count = Some (df_len df),
                                     log_success = True, log_error = None\<rparr> st1))))))"

section \<open>Notions used to state and prove the properties\<close>

text \<open>
  The tail of the facility pattern read from left to right, one character at a time:
  \<open>digits_follow\<close> is \<open>\s*\d\<close>, \<open>equals_follows\<close> is \<open>\s*=\s*\d\<close>, and
  \<open>letters_follow w\<close> is the letters \<open>w\<close> in either case before that.
\<close>

fun digits_follow :: "string \<Rightarrow> bool" where
  "digits_follow [] = False"
| "digits_follow (c # cs) = (if is_space c then digits_follow cs else is_digit c)"

fun equals_follows :: "string \<Rightarrow> bool" where
  "equals_follows [] = False"
| "equals_follows (c # cs) =
     (if is_space c then equals_follows cs else c = CHR ''='' \<and> digits_follow cs)"

fun letters_follow :: "string \<Rightarrow> string \<Rightarrow> bool" where
  "letters_follow [] s = equals_follows s"
| "letters_follow (p # ps) [] = False"
| "letters_follow (p # ps) (c # cs) = (lower_char c = lower_char p \<and> letters_follow ps cs)"

text \<open>No position of the text is the start of a match of the facility pattern.\<close>

fun no_facility_match :: "string \<Rightarrow> bool" where
  "no_facility_match [] = True"
| "no_facility_match (c # cs) = (facility_pattern (c # cs) = None \<and> no_facility_match cs)"

text \<open>The number \<open>n\<close> written with four decimal digits, zero-padded on the left.\<close>

definition four_digits :: "nat \<Rightarrow> string" where
  "four_digits n = map digit_char [n div 1000 mod 10, n div 100 mod 10, n div 10 mod 10, n mod 10]"




text \<open>
  What may remain to be read of the column name once a match of the facility pattern has
  begun; a text that no match begun before it can go on into; and a replacement text
  that neither goes on a match begun before it nor brings or begins a match itself.
\<close>

definition pattern_tails :: "string list" where
  "pattern_tails =
     [''acility_id'', ''cility_id'', ''ility_id'', ''lity_id'', ''ity_id'', ''ty_id'',
      ''y_id'', ''_id'', ''id'', ''d'', []]"

definition rejected :: "string \<Rightarrow> bool" where
  "rejected u = (\<not> digits_follow u \<and> list_all (\<lambda>ps. \<not> letters_follow ps u) pattern_tails)"

definition inert :: "string \<Rightarrow> bool" where
  "inert rep = (\<forall>x. rejected (rep @ x) \<and> (no_facility_match x \<longrightarrow> no_facility_match (rep @ x)))"

text \<open>
  The same read on a text whose continuation is not known: the readers below accept when
  the text ends before they can decide, so their refusal holds whatever follows.
\<close>

fun may_digits :: "string \<Rightarrow> bool" where
  "may_digits [] = True"
| "may_digits (c # cs) = (if is_space c then may_digits cs else is_digit c)"

fun may_equals :: "string \<Rightarrow> bool" where
  "may_equals [] = True"
| "may_equals (c # cs) =
     (if is_space c then may_equals cs else c = CHR ''='' \<and> may_digits cs)"

fun may_letters :: "string \<Rightarrow> string \<Rightarrow> bool" where
  "may_letters [] s = may_equals s"
| "may_letters (p # ps) [] = True"
| "may_letters (p # ps) (c # cs) = (lower_char c = lower_char p \<and> may_letters ps cs)"

fun no_start :: "string \<Rightarrow> bool" where
  "no_start [] = True"
| "no_start (c # cs) = (\<not> may_letters ''facility_id'' (c # cs) \<and> no_start cs)"

definition rejected_text :: "string \<Rightarrow> bool" where
  "rejected_text rep =
     (\<not> may_digits rep \<and> list_all (\<lambda>ps. \<not> may_letters ps rep) pattern_tails)"

definition inert_text :: "string \<Rightarrow> bool" where
  "inert_text rep = (rejected_text rep \<and> no_start rep)"

section \<open>Equations for evaluation\<close>

text \<open>
  The character classes computed on integers, and the prefix tests computed from left to
  right up to the first character that differs. These equations replace the defining
  ones when a term is evaluated; they are proved from them.
\<close>

lemma is_space_code [code]:
  "is_space c =
     (let n = (of_char c :: int)
      in if n \<le> 32 then (9 \<le> n \<and> n \<le> 13) \<or> 28 \<le> n else n = 133 \<or> n = 160)"
proof -
  have "(of_char c :: int) = int (of_char c)" by (simp add: of_nat_of_char)
  then show ?thesis by (auto simp: is_space_def Let_def)
qed

lemma is_digit_code [code]:
  "is_digit c = (let n = (of_char c :: int) in if n \<le> 57 then 48 \<le> n else False)"
proof -
  have "(of_char c :: int) = int (of_char c)" by (simp add: of_nat_of_char)
  then show ?thesis by (auto simp: is_digit_def Let_def)
qed

lemma is_word_code [code]:
  "is_word c =
     (let n = (of_char c :: int)
      in (48 \<le> n \<and> n \<le> 57) \<or> (65 \<le> n \<and> n \<le> 90) \<or> n = 95 \<or> (97 \<le> n \<and> n \<le> 122)
         \<or> n = 170 \<or> n = 178 \<or> n = 179 \<or> n = 181 \<or> n = 185 \<or> n = 186
         \<or> (188 \<le> n \<and> n \<le> 190) \<or> (192 \<le> n \<and> n \<le> 214)
         \<or> (216 \<le> n \<and> n \<le> 246) \<or> 248 \<le> n)"
proof -
  have "(of_char c :: int) = int (of_char c)" by (simp add: of_nat_of_char)
  then show ?thesis by (simp add: is_word_def Let_def)
qed

lemma lower_char_code [code]:
  "lower_char c =
     (let n = (of_char c :: int)
      in if (65 \<le> n \<and> n \<le> 90) \<or> (192 \<le> n \<and> n \<le> 214) \<or> (216 \<le> n \<and> n \<le> 222)
         then char_of (n + 32) else c)"
proof -
  have "(of_char c :: int) = int (of_char c)" by (simp add: of_nat_of_char)
  moreover have "(char_of (int (of_char c) + 32) :: char) = char_of (of_char c + 32 :: nat)"
    using char_of_nat [of "of_char c + 32"] by simp
  ultimately show ?thesis by (simp add: lower_char_def Let_def)
qed

lemma upper_char_code [code]:
  "upper_char c =
     (let n = (of_char c :: int)
      in if n = 223 then ''SS''
         else if (97 \<le> n \<and> n \<le> 122) \<or> (224 \<le> n \<and> n \<le> 246) \<or> (248 \<le> n \<and> n \<le> 254)
         then [char_of (n - 32)] else [c])"
proof -
  have i: "(of_char c :: int) = int (of_char c)" by (simp add: of_nat_of_char)
  have "(char_of (int (of_char c) - 32) :: char) = char_of (of_char c - 32 :: nat)"
    if "32 \<le> (of_char c :: nat)"
    using char_of_nat [of "of_char c - 32"] that by (simp add: of_nat_diff)
  with i show ?thesis by (auto simp: upper_char_def Let_def)
qed

lemma startswith_code [code]:
  "startswith [] s = True"
  "startswith (p # ps) [] = False"
  "startswith (p # ps) (c # cs) = (if c = p then startswith ps cs else False)"
  by (auto simp: startswith_def)

lemma startswith_ci_code [code]:
  "startswith_ci [] s = True"
  "startswith_ci (p # ps) [] = False"
  "startswith_ci (p # ps) (c # cs) =
     (if lower_char c = lower_char p then startswith_ci ps cs else False)"
  by (auto simp: startswith_ci_def lower_def)

section \<open>Facts about the text primitives\<close>

lemma startswith_iff: "startswith p s \<longleftrightarrow> (\<exists>b. s = p @ b)"
  unfolding startswith_def
  by (metis append_eq_conv_conj append_take_drop_id)

lemma contains_iff: "contains p s \<longleftrightarrow> (\<exists>a b. s = a @ p @ b)"
proof (induction s)
  case Nil
  show ?case by auto
next
  case (Cons c cs)
  show ?case
  proof
    assume "contains p (c # cs)"
    then consider "startswith p (c # cs)" | "contains p cs" by auto
    then show "\<exists>a b. c # cs = a @ p @ b"
    proof cases
      case 1
      then obtain b where "c # cs = p @ b" by (auto simp: startswith_iff)
      then have "c # cs = [] @ p @ b" by simp
      then show ?thesis by blast
    next
      case 2
      with Cons.IH obtain a b where "cs = a @ p @ b" by blast
      then have "c # cs = (c # a) @ p @ b" by simp
      then show ?thesis by blast
    qed
  next
    assume "\<exists>a b. c # cs = a @ p @ b"
    then obtain a b where ab: "c # cs = a @ p @ b" by blast
    show "contains p (c # cs)"
    proof (cases a)
      case Nil
      with ab have "startswith p (c # cs)" by (auto simp: startswith_iff)
      then show ?thesis by simp
    next
      case (Cons x a')
      with ab have "cs = a' @ p @ b" by simp
      with Cons.IH have "contains p cs" by blast
      then show ?thesis by simp
    qed
  qed
qed

lemma upper_append: "upper (a @ b) = upper a @ upper b"
  by (simp add: upper_def)

lemma lower_append: "lower (a @ b) = lower a @ lower b"
  by (simp add: lower_def)

lemma lower_char_ascii_letter:
  assumes "lower_char c = char_of (n + 32)" "65 \<le> n" "n \<le> (90::nat)"
  shows "upper_char c = [char_of n]"
proof -
  let ?k = "of_char c :: nat"
  let ?up = "(65 \<le> ?k \<and> ?k \<le> 90) \<or> (192 \<le> ?k \<and> ?k \<le> 214) \<or> (216 \<le> ?k \<and> ?k \<le> 222)"
  have n32: "(n + 32) mod 256 = n + 32" using assms(3) by simp
  show ?thesis
  proof (cases ?up)
    case True
    then have "lower_char c = char_of (?k + 32)"
      by (simp only: lower_char_def Let_def if_True)
    with assms(1) have "(of_char (char_of (?k + 32) :: char) :: nat) = of_char (char_of (n + 32) :: char)"
      by simp
    then have "(?k + 32) mod 256 = n + 32" by (simp only: of_char_of n32)
    moreover from True have "?k + 32 < 256" by arith
    ultimately have kn: "?k = n" by simp
    then have un: "upper_char c = [c]" using assms(2,3)
      by (simp add: upper_char_def Let_def)
    have "char_of ?k = c" by simp
    with kn have "c = char_of n" by simp
    with un show ?thesis by simp
  next
    case False
    then have "lower_char c = c"
      by (simp only: lower_char_def Let_def if_False)
    with assms(1) have c: "c = char_of (n + 32)" by simp
    then have "?k = n + 32" by (simp only: of_char_of n32)
    then show ?thesis using assms(2,3)
      by (simp add: upper_char_def Let_def c)
  qed
qed

lemma lower_limit_upper:
  assumes "lower w = ''limit''"
  shows "upper w = ''LIMIT''"
proof -
  from assms obtain a b c d e where w: "w = [a, b, c, d, e]"
    and l: "lower_char a = CHR ''l''" "lower_char b = CHR ''i''" "lower_char c = CHR ''m''"
      "lower_char d = CHR ''i''" "lower_char e = CHR ''t''"
    by (auto simp: lower_def map_eq_Cons_conv)
  have lo: "char_of (76 + 32 :: nat) = CHR ''l''" "char_of (73 + 32 :: nat) = CHR ''i''"
    "char_of (77 + 32 :: nat) = CHR ''m''" "char_of (84 + 32 :: nat) = CHR ''t''"
    by (simp_all add: char_of_eq_iff)
  have up: "char_of (76 :: nat) = CHR ''L''" "char_of (73 :: nat) = CHR ''I''"
    "char_of (77 :: nat) = CHR ''M''" "char_of (84 :: nat) = CHR ''T''"
    by (simp_all add: char_of_eq_iff)
  have "upper_char a = ''L''" using lower_char_ascii_letter[of a 76] l(1) lo(1) up(1) by simp
  moreover have "upper_char b = ''I''" using lower_char_ascii_letter[of b 73] l(2) lo(2) up(2) by simp
  moreover have "upper_char c = ''M''" using lower_char_ascii_letter[of c 77] l(3) lo(3) up(3) by simp
  moreover have "upper_char d = ''I''" using lower_char_ascii_letter[of d 73] l(4) lo(2) up(2) by simp
  moreover have "upper_char e = ''T''" using lower_char_ascii_letter[of e 84] l(5) lo(4) up(4) by simp
  ultimately show ?thesis by (simp add: w upper_def)
qed

lemma contains_limit_upper:
  assumes "contains ''limit'' (lower query)"
  shows "contains ''LIMIT'' (upper query)"
proof -
  from assms obtain a b where "map lower_char query = a @ (''limit'' @ b)"
    by (auto simp: contains_iff lower_def)
  then obtain a' r where r: "query = a' @ r" "map lower_char r = ''limit'' @ b"
    by (auto simp: map_eq_append_conv)
  from r(2) have "\<exists>w b'. r = w @ b' \<and> ''limit'' = map lower_char w \<and> b = map lower_char b'"
    by (simp only: map_eq_append_conv)
  then obtain w b' where wb: "r = w @ b'" "map lower_char w = ''limit''"
    by metis
  from wb(2) have "upper w = ''LIMIT''" by (simp add: lower_limit_upper lower_def)
  with r(1) wb(1) have "upper query = upper a' @ ''LIMIT'' @ upper b'"
    by (simp add: upper_append)
  then show ?thesis unfolding contains_iff by blast
qed

section \<open>Facts about the facility pattern and its pass\<close>

lemma lower_char_eq_f:
  assumes "lower_char c = CHR ''f''"
  shows "c = CHR ''f'' \<or> c = CHR ''F''"
proof -
  let ?k = "of_char c :: nat"
  let ?up = "(65 \<le> ?k \<and> ?k \<le> 90) \<or> (192 \<le> ?k \<and> ?k \<le> 214) \<or> (216 \<le> ?k \<and> ?k \<le> 222)"
  show ?thesis
  proof (cases ?up)
    case True
    then have "lower_char c = char_of (?k + 32)"
      by (simp only: lower_char_def Let_def if_True)
    with assms have "(of_char (char_of (?k + 32) :: char) :: nat) = of_char CHR ''f''"
      by simp
    then have "(?k + 32) mod 256 = 102" by (simp only: of_char_of) simp
    moreover from True have "?k + 32 < 256" by arith
    ultimately have "?k = 70" by simp
    then have "?k = of_char CHR ''F''" by simp
    then have "c = CHR ''F''" by (simp only: of_char_eq_iff)
    then show ?thesis ..
  next
    case False
    then have "lower_char c = c"
      by (simp only: lower_char_def Let_def if_False)
    with assms show ?thesis by simp
  qed
qed

lemma f_like_classes:
  assumes "lower_char c = CHR ''f''"
  shows "\<not> is_space c" "\<not> is_digit c" "c \<noteq> CHR ''=''"
  using lower_char_eq_f [OF assms] by (auto simp: is_space_def is_digit_def)

lemma digit_classes:
  assumes "is_digit c"
  shows "\<not> is_space c" "lower_char c = c" "c \<noteq> CHR ''=''"
  using assms by (auto simp: is_space_def is_digit_def lower_char_def Let_def)

lemma equals_not_space: "\<not> is_space CHR ''=''" "\<not> is_digit CHR ''=''"
  by (simp_all add: is_space_def is_digit_def)


lemma digits_follow_iff:
  "digits_follow s \<longleftrightarrow> takeWhile is_digit (dropWhile is_space s) \<noteq> []"
  by (induction s) (auto simp: digit_classes)

lemma equals_follows_iff:
  "equals_follows s \<longleftrightarrow>
     (case dropWhile is_space s of [] \<Rightarrow> False | c # r \<Rightarrow> c = CHR ''='' \<and> digits_follow r)"
  by (induction s) auto

lemma startswith_ci_Cons:
  "startswith_ci (p # ps) (c # cs) \<longleftrightarrow> lower_char c = lower_char p \<and> startswith_ci ps cs"
  by (auto simp: startswith_ci_def lower_def)

lemma startswith_ci_Nil [simp]: "startswith_ci [] s" "\<not> startswith_ci (p # ps) []"
  by (simp_all add: startswith_ci_def lower_def)

lemma letters_follow_iff:
  "letters_follow w s \<longleftrightarrow> startswith_ci w s \<and> equals_follows (drop (length w) s)"
proof (induction w s rule: letters_follow.induct)
  case (1 s)
  show ?case by simp
next
  case (2 p ps)
  show ?case by simp
next
  case (3 p ps c cs)
  then show ?case by (simp add: startswith_ci_Cons)
qed

lemma letters_follow_facility:
  "letters_follow ''facility_id'' s \<longleftrightarrow>
     startswith_ci ''facility_id'' s \<and> equals_follows (drop 11 s)"
proof -
  have "length ''facility_id'' = 11" by simp
  with letters_follow_iff [of "''facility_id''" s] show ?thesis by (simp only:)
qed

lemma facility_pattern_None_iff:
  "facility_pattern s = None \<longleftrightarrow> \<not> letters_follow ''facility_id'' s"
proof (cases "startswith_ci ''facility_id'' s")
  case False
  then show ?thesis by (simp add: facility_pattern_def letters_follow_facility)
next
  case True
  show ?thesis
  proof (cases "dropWhile is_space (drop 11 s)")
    case Nil
    with True show ?thesis
      by (simp add: facility_pattern_def letters_follow_facility equals_follows_iff
            del: dropWhile_eq_Nil_conv)
  next
    case (Cons c r)
    with True show ?thesis
      by (simp add: facility_pattern_def letters_follow_facility equals_follows_iff
            digits_follow_iff Let_def)
  qed
qed


lemma startswith_ci_facility:
  "startswith_ci ''facility_id'' s \<longleftrightarrow> 11 \<le> length s \<and> lower (take 11 s) = ''facility_id''"
proof -
  have "length ''facility_id'' = 11" by simp
  moreover have "lower ''facility_id'' = ''facility_id''"
    by (simp add: lower_def lower_char_def)
  ultimately show ?thesis by (simp only: startswith_ci_def)
qed

lemma facility_pattern_SomeD:
  assumes "facility_pattern s = Some (ds, n)"
  obtains fc w1 w2 rest where
    "s = fc @ w1 @ CHR ''='' # w2 @ ds @ rest" "length fc = 11" "lower fc = ''facility_id''"
    "\<forall>c\<in>set w1. is_space c" "\<forall>c\<in>set w2. is_space c" "ds \<noteq> []" "\<forall>c\<in>set ds. is_digit c"
    "rest = [] \<or> \<not> is_digit (hd rest)" "n = length s - length rest"
proof -
  from assms have ci: "startswith_ci ''facility_id'' s"
    by (simp add: facility_pattern_def split: if_splits)
  define a where "a = drop 11 s"
  from assms ci obtain r where ar: "dropWhile is_space a = CHR ''='' # r"
    by (auto simp: facility_pattern_def a_def split: list.splits if_splits)
  define t where "t = dropWhile is_space r"
  from assms ci ar have ds: "ds = takeWhile is_digit t" "ds \<noteq> []"
    and n: "n = length s - length (dropWhile is_digit t)"
    by (auto simp: facility_pattern_def a_def t_def Let_def split: if_splits)
  have "s = take 11 s @ a" by (simp add: a_def)
  moreover have "a = takeWhile is_space a @ CHR ''='' # r"
    using ar takeWhile_dropWhile_id [of is_space a] by simp
  moreover have "r = takeWhile is_space r @ t"
    by (simp add: t_def)
  moreover have "t = ds @ dropWhile is_digit t"
    by (simp add: ds)
  ultimately have s: "s = take 11 s @ takeWhile is_space a @ CHR ''='' # takeWhile is_space r @ ds
      @ dropWhile is_digit t"
    by metis
  from ci have l: "length (take 11 s) = 11" "lower (take 11 s) = ''facility_id''"
    by (simp_all add: startswith_ci_facility)
  have w: "\<forall>c\<in>set (takeWhile is_space a). is_space c" "\<forall>c\<in>set (takeWhile is_space r). is_space c"
    "\<forall>c\<in>set ds. is_digit c"
    by (auto simp: ds dest: set_takeWhileD)
  have h: "dropWhile is_digit t = [] \<or> \<not> is_digit (hd (dropWhile is_digit t))"
    using hd_dropWhile [of is_digit t] by blast
  from s l w(1,2) ds(2) w(3) h n show ?thesis by (rule that)
qed


lemma facility_pattern_SomeI:
  assumes "length fc = 11" "lower fc = ''facility_id''"
    "\<forall>c\<in>set w1. is_space c" "\<forall>c\<in>set w2. is_space c" "ds \<noteq> []" "\<forall>c\<in>set ds. is_digit c"
    "rest = [] \<or> \<not> is_digit (hd rest)"
  shows "facility_pattern (fc @ w1 @ CHR ''='' # w2 @ ds @ rest)
           = Some (ds, length (fc @ w1 @ CHR ''='' # w2 @ ds))"
proof -
  let ?s = "fc @ w1 @ CHR ''='' # w2 @ ds @ rest"
  from assms(1,2) have ci: "startswith_ci ''facility_id'' ?s"
    by (simp add: startswith_ci_facility)
  from assms(1) have d: "drop 11 ?s = w1 @ CHR ''='' # w2 @ ds @ rest" by simp
  from assms(3) have a: "dropWhile is_space (w1 @ CHR ''='' # w2 @ ds @ rest)
      = CHR ''='' # w2 @ ds @ rest"
    by (simp add: dropWhile_append2 equals_not_space)
  from assms(5,6) have "\<not> is_space (hd ds)" by (simp add: digit_classes)
  with assms(4,5) have b: "dropWhile is_space (w2 @ ds @ rest) = ds @ rest"
    by (cases ds) (simp_all add: dropWhile_append2)
  from assms(6,7) have t: "takeWhile is_digit (ds @ rest) = ds"
    by (cases rest) (simp_all add: takeWhile_append2)
  from assms(6,7) have r: "dropWhile is_digit (ds @ rest) = rest"
    by (cases rest) (simp_all add: dropWhile_append2)
  show ?thesis
    unfolding facility_pattern_def
    by (simp only: ci d a b t r if_True list.case Let_def refl assms(5) if_False)
      simp
qed

lemma facility_pattern_Some_facts:
  assumes "facility_pattern s = Some (ds, n)"
  shows "0 < n" "n \<le> length s" "s \<noteq> []" "lower_char (hd s) = CHR ''f''"
    "ds \<noteq> []" "\<forall>c\<in>set ds. is_digit c"
proof -
  from assms obtain fc w1 w2 rest where
    s: "s = fc @ w1 @ CHR ''='' # w2 @ ds @ rest" and fc: "length fc = 11" "lower fc = ''facility_id''"
    and ds: "ds \<noteq> []" "\<forall>c\<in>set ds. is_digit c" and n: "n = length s - length rest"
    by (rule facility_pattern_SomeD)
  from s n show "0 < n" "n \<le> length s" by simp_all
  from s show "s \<noteq> []" by simp
  from fc obtain x xs where "fc = x # xs" "lower_char x = CHR ''f''"
    by (cases fc) (auto simp: lower_def)
  with s show "lower_char (hd s) = CHR ''f''" by simp
  from ds show "ds \<noteq> []" "\<forall>c\<in>set ds. is_digit c" by simp_all
qed

lemma facility_pattern_not_f:
  "lower_char c \<noteq> CHR ''f'' \<Longrightarrow> facility_pattern (c # cs) = None"
  using facility_pattern_Some_facts(4) [of "c # cs"]
  by (cases "facility_pattern (c # cs)") auto


lemma facility_sub_prev:
  "re_sub facility_matcher p s = re_sub facility_matcher q s"
proof (induction "facility_matcher" p s arbitrary: q rule: re_sub.induct)
  case (1 prev)
  show ?case by simp
next
  case (2 prev c cs)
  show ?case
  proof (cases "facility_pattern (c # cs)")
    case None
    then have "re_sub facility_matcher prev (c # cs) = c # re_sub facility_matcher (Some c) cs"
      "re_sub facility_matcher q (c # cs) = c # re_sub facility_matcher (Some c) cs"
      by (simp_all add: facility_matcher_def)
    then show ?thesis by simp
  next
    case (Some a)
    then obtain ds n where dn: "facility_pattern (c # cs) = Some (ds, n)" by (cases a) simp
    then have n: "0 < n" by (rule facility_pattern_Some_facts)
    from dn n have
      "re_sub facility_matcher prev (c # cs) = replace_facility_id ds
          @ re_sub facility_matcher (Some (last (take n (c # cs)))) (drop n (c # cs))"
      "re_sub facility_matcher q (c # cs) = replace_facility_id ds
          @ re_sub facility_matcher (Some (last (take n (c # cs)))) (drop n (c # cs))"
      by (simp_all add: facility_matcher_def)
    then show ?thesis by simp
  qed
qed

lemma fix_facility_Nil: "fix_facility_id_format [] = []"
  by (simp add: fix_facility_id_format_def)

lemma fix_facility_skip:
  assumes "facility_pattern (c # cs) = None"
  shows "fix_facility_id_format (c # cs) = c # fix_facility_id_format cs"
proof -
  from assms have "re_sub facility_matcher None (c # cs) = c # re_sub facility_matcher (Some c) cs"
    by (simp add: facility_matcher_def)
  then show ?thesis
    using facility_sub_prev [of "Some c" cs None] by (simp add: fix_facility_id_format_def)
qed

lemma fix_facility_match:
  assumes "facility_pattern s = Some (ds, n)"
  shows "fix_facility_id_format s = replace_facility_id ds @ fix_facility_id_format (drop n s)"
proof -
  from assms have n: "0 < n" and "s \<noteq> []" by (rule facility_pattern_Some_facts)+
  then obtain c cs where s: "s = c # cs" by (cases s) auto
  from assms n have "re_sub facility_matcher None (c # cs) = replace_facility_id ds
      @ re_sub facility_matcher (Some (last (take n (c # cs)))) (drop n (c # cs))"
    by (simp add: facility_matcher_def s)
  then show ?thesis
    using facility_sub_prev [of "Some (last (take n (c # cs)))" "drop n (c # cs)" None]
    by (simp add: fix_facility_id_format_def s)
qed

lemma fix_facility_induct [case_names Nil skip match]:
  assumes "P []"
    and "\<And>c cs. facility_pattern (c # cs) = None \<Longrightarrow> P cs \<Longrightarrow> P (c # cs)"
    and "\<And>s ds n. facility_pattern s = Some (ds, n) \<Longrightarrow> P (drop n s) \<Longrightarrow> P s"
  shows "P s"
proof (induction s rule: length_induct)
  case (1 s)
  show ?case
  proof (cases s)
    case Nil
    with assms(1) show ?thesis by simp
  next
    case (Cons c cs)
    show ?thesis
    proof (cases "facility_pattern s")
      case None
      with Cons 1 assms(2) [of c cs] show ?thesis by simp
    next
      case (Some a)
      then obtain ds n where dn: "facility_pattern s = Some (ds, n)" by (cases a) simp
      then have "0 < n" "s \<noteq> []" by (rule facility_pattern_Some_facts)+
      then have "length (drop n s) < length s" by simp
      with 1 have "P (drop n s)" by blast
      with dn show ?thesis by (rule assms(3))
    qed
  qed
qed


lemma replace_facility_id_Cons:
  "replace_facility_id ds = CHR ''f'' # ''acility_id = '' @ [quote] @ zfill 4 ds @ [quote]"
  by (simp add: replace_facility_id_def)

lemma f_like_rejected:
  assumes "lower_char c = CHR ''f''"
  shows "\<not> digits_follow (c # cs)" "\<not> equals_follows (c # cs)"
    "\<forall>p\<in>set ps. lower_char p \<noteq> CHR ''f'' \<Longrightarrow> ps \<noteq> [] \<Longrightarrow> \<not> letters_follow ps (c # cs)"
  using f_like_classes [OF assms] assms by (simp_all, cases ps) auto

lemma lower_char_f [simp]: "lower_char CHR ''f'' = CHR ''f''"
  by (simp add: lower_char_def)

lemma tail_fix_facility:
  "digits_follow (fix_facility_id_format s) = digits_follow s
   \<and> equals_follows (fix_facility_id_format s) = equals_follows s
   \<and> (\<forall>ps. (\<forall>p\<in>set ps. lower_char p \<noteq> CHR ''f'') \<longrightarrow>
         letters_follow ps (fix_facility_id_format s) = letters_follow ps s)"
proof (induction s rule: fix_facility_induct)
  case Nil
  show ?case by (simp add: fix_facility_Nil)
next
  case (skip c cs)
  have "letters_follow ps (c # fix_facility_id_format cs) = letters_follow ps (c # cs)"
    if "\<forall>p\<in>set ps. lower_char p \<noteq> CHR ''f''" for ps
    using that skip.IH by (cases ps) simp_all
  with skip show ?case by (simp add: fix_facility_skip)
next
  case (match s ds n)
  from match(1) have "s \<noteq> []" and f: "lower_char (hd s) = CHR ''f''"
    by (rule facility_pattern_Some_facts)+
  then obtain c cs where s: "s = c # cs" and c: "lower_char c = CHR ''f''"
    by (cases s) auto
  from match(1) obtain X where out: "fix_facility_id_format (c # cs) = CHR ''f'' # X"
    by (simp add: fix_facility_match replace_facility_id_Cons s)
  note rej = f_like_rejected [OF c] f_like_rejected [OF lower_char_f]
  have "letters_follow ps (fix_facility_id_format s) = letters_follow ps s"
    if "\<forall>p\<in>set ps. lower_char p \<noteq> CHR ''f''" for ps
  proof (cases ps)
    case Nil
    then show ?thesis
      unfolding s out using rej(2,5) by (simp del: equals_follows.simps)
  next
    case (Cons p ps')
    with that have "lower_char p \<noteq> CHR ''f''" by simp
    with Cons c show ?thesis unfolding s out by simp
  qed
  moreover have "digits_follow (fix_facility_id_format s) = digits_follow s"
    unfolding s out using rej(1,4) by (simp del: digits_follow.simps)
  moreover have "equals_follows (fix_facility_id_format s) = equals_follows s"
    unfolding s out using rej(2,5) by (simp del: equals_follows.simps)
  ultimately show ?case by blast
qed


lemma acility_id_no_f: "\<forall>p\<in>set ''acility_id''. lower_char p \<noteq> CHR ''f''"
  by (simp add: lower_char_def)

lemma no_facility_match_append:
  assumes "\<forall>c\<in>set u. lower_char c \<noteq> CHR ''f''" "no_facility_match x"
  shows "no_facility_match (u @ x)"
  using assms by (induction u) (simp_all add: facility_pattern_not_f)

lemma replacement_is_no_match:
  "facility_pattern (replace_facility_id ds @ x) = None"
  unfolding facility_pattern_None_iff
  by (simp add: replace_facility_id_def lower_char_def is_space_def is_digit_def)

lemma replacement_tail_no_f:
  assumes "\<forall>c\<in>set ds. is_digit c"
  shows "\<forall>c\<in>set (''acility_id = '' @ [quote] @ zfill 4 ds @ [quote]). lower_char c \<noteq> CHR ''f''"
proof -
  have "lower_char c \<noteq> CHR ''f''" if "is_digit c" for c
    using that digit_classes(2) [OF that] by (auto simp: is_digit_def)
  with assms have "\<forall>c\<in>set (zfill 4 ds). lower_char c \<noteq> CHR ''f''"
    by (auto simp: zfill_def lower_char_def)
  then show ?thesis by (simp add: lower_char_def)
qed

lemma fix_facility_no_match: "no_facility_match (fix_facility_id_format s)"
proof (induction s rule: fix_facility_induct)
  case Nil
  show ?case by (simp add: fix_facility_Nil)
next
  case (skip c cs)
  from skip(1) have "\<not> letters_follow ''facility_id'' (c # cs)"
    using facility_pattern_None_iff by blast
  moreover have "letters_follow ''acility_id'' (fix_facility_id_format cs)
      = letters_follow ''acility_id'' cs"
    using tail_fix_facility [of cs] acility_id_no_f by blast
  ultimately have "\<not> letters_follow ''facility_id'' (c # fix_facility_id_format cs)"
    by simp
  then have "facility_pattern (c # fix_facility_id_format cs) = None"
    using facility_pattern_None_iff by blast
  with skip show ?case by (simp add: fix_facility_skip)
next
  case (match s ds n)
  from match(1) have "\<forall>c\<in>set ds. is_digit c" by (rule facility_pattern_Some_facts)
  then have "no_facility_match
      ((''acility_id = '' @ [quote] @ zfill 4 ds @ [quote]) @ fix_facility_id_format (drop n s))"
    using match.IH by (intro no_facility_match_append replacement_tail_no_f)
  moreover have "facility_pattern (replace_facility_id ds @ fix_facility_id_format (drop n s)) = None"
    by (rule replacement_is_no_match)
  ultimately have "no_facility_match (replace_facility_id ds @ fix_facility_id_format (drop n s))"
    by (simp add: replace_facility_id_Cons)
  with match(1) show ?case by (simp add: fix_facility_match)
qed




lemma tail_append_f_like:
  assumes "lower_char c = CHR ''f''"
  shows "digits_follow (s @ c # t) = digits_follow s
   \<and> equals_follows (s @ c # t) = equals_follows s
   \<and> (\<forall>ps. (\<forall>p\<in>set ps. lower_char p \<noteq> CHR ''f'') \<longrightarrow>
         letters_follow ps (s @ c # t) = letters_follow ps s)"
proof (induction s)
  case Nil
  note rej = f_like_rejected [OF assms]
  have "letters_follow ps (c # t) = letters_follow ps []"
    if "\<forall>p\<in>set ps. lower_char p \<noteq> CHR ''f''" for ps
    using that rej(2) [of t] assms
    by (cases ps) (auto simp del: equals_follows.simps(2))
  with rej(1,2) [of t] show ?case
    by (simp del: digits_follow.simps(2) equals_follows.simps(2))
next
  case (Cons x s)
  have "letters_follow ps ((x # s) @ c # t) = letters_follow ps (x # s)"
    if "\<forall>p\<in>set ps. lower_char p \<noteq> CHR ''f''" for ps
    using that Cons by (cases ps) simp_all
  with Cons show ?case by simp
qed

lemma facility_pattern_append_None:
  assumes "facility_pattern (x # s) = None" "lower_char c = CHR ''f''"
  shows "facility_pattern ((x # s) @ c # t) = None"
proof -
  from assms(1) have "\<not> letters_follow ''facility_id'' (x # s)"
    using facility_pattern_None_iff by blast
  moreover have "letters_follow ''acility_id'' (s @ c # t) = letters_follow ''acility_id'' s"
    using tail_append_f_like [OF assms(2), of s t] acility_id_no_f by blast
  ultimately have "\<not> letters_follow ''facility_id'' ((x # s) @ c # t)" by simp
  then show ?thesis using facility_pattern_None_iff by blast
qed

lemma facility_pattern_append_Some:
  assumes "facility_pattern s = Some (ds, n)" "t = [] \<or> \<not> is_digit (hd t)"
  shows "facility_pattern (s @ t) = Some (ds, n)"
proof -
  from assms(1) obtain fc w1 w2 rest where
    s: "s = fc @ w1 @ CHR ''='' # w2 @ ds @ rest" and fc: "length fc = 11" "lower fc = ''facility_id''"
    and w: "\<forall>c\<in>set w1. is_space c" "\<forall>c\<in>set w2. is_space c"
    and ds: "ds \<noteq> []" "\<forall>c\<in>set ds. is_digit c"
    and rest: "rest = [] \<or> \<not> is_digit (hd rest)" and n: "n = length s - length rest"
    by (rule facility_pattern_SomeD)
  from rest assms(2) have "rest @ t = [] \<or> \<not> is_digit (hd (rest @ t))"
    by (cases rest) simp_all
  with fc w ds have "facility_pattern (fc @ w1 @ CHR ''='' # w2 @ ds @ rest @ t)
      = Some (ds, length (fc @ w1 @ CHR ''='' # w2 @ ds))"
    by (rule facility_pattern_SomeI)
  moreover from s n have "n = length (fc @ w1 @ CHR ''='' # w2 @ ds)" by simp
  ultimately show ?thesis by (simp add: s)
qed

lemma fix_facility_append:
  assumes "lower_char c = CHR ''f''"
  shows "fix_facility_id_format (s @ c # t)
           = fix_facility_id_format s @ fix_facility_id_format (c # t)"
proof (induction s rule: fix_facility_induct)
  case Nil
  show ?case by (simp add: fix_facility_Nil)
next
  case (skip x s)
  from skip(1) assms have "facility_pattern (x # s @ c # t) = None"
    using facility_pattern_append_None [of x s c t] by simp
  then have "fix_facility_id_format (x # s @ c # t) = x # fix_facility_id_format (s @ c # t)"
    by (rule fix_facility_skip)
  with skip show ?case by (simp add: fix_facility_skip)
next
  case (match s ds n)
  from assms have "\<not> is_digit c" by (rule f_like_classes)
  with match(1) have m: "facility_pattern (s @ c # t) = Some (ds, n)"
    by (intro facility_pattern_append_Some) simp_all
  from match(1) have "n \<le> length s" by (rule facility_pattern_Some_facts)
  then have "drop n (s @ c # t) = drop n s @ c # t" by simp
  with m match show ?case by (simp add: fix_facility_match)
qed

section \<open>Decimal numerals and zero padding\<close>

lemma is_digit_digit_char: "d < 10 \<Longrightarrow> is_digit (digit_char d)"
  by (simp add: is_digit_def digit_char_def)

lemma show_nat_digits: "show_nat n \<noteq> [] \<and> (\<forall>c\<in>set (show_nat n). is_digit c)"
proof (induction n rule: show_nat.induct)
  case (1 n)
  show ?case
  proof (cases "n < 10")
    case True
    then show ?thesis by (simp add: show_nat.simps [of n] is_digit_digit_char)
  next
    case False
    with 1 show ?thesis by (simp add: show_nat.simps [of n] is_digit_digit_char)
  qed
qed

lemma show_nat_small: "n < 10 \<Longrightarrow> show_nat n = [digit_char n]"
  by (simp add: show_nat.simps [of n])

lemma show_nat_step: "10 \<le> n \<Longrightarrow> show_nat n = show_nat (n div 10) @ [digit_char (n mod 10)]"
  by (simp add: show_nat.simps [of n])

lemma digit_char_0: "digit_char 0 = CHR ''0''"
  by (simp add: digit_char_def char_of_eq_iff)

lemma zfill_4:
  "zfill 4 [a] = [CHR ''0'', CHR ''0'', CHR ''0'', a]"
  "zfill 4 [a, b] = [CHR ''0'', CHR ''0'', a, b]"
  "zfill 4 [a, b, c] = [CHR ''0'', a, b, c]"
  "zfill 4 [a, b, c, d] = [a, b, c, d]"
  by (simp_all add: zfill_def numeral_eq_Suc)

lemma zfill_show_nat:
  assumes "n \<le> 9999"
  shows "zfill 4 (show_nat n) = four_digits n"
proof -
  consider "n < 10" | "10 \<le> n" "n < 100" | "100 \<le> n" "n < 1000" | "1000 \<le> n" by linarith
  then show ?thesis
  proof cases
    case 1
    then show ?thesis
      by (simp add: show_nat_small zfill_4 four_digits_def digit_char_0)
  next
    case 2
    then have "show_nat n = [digit_char (n div 10), digit_char (n mod 10)]"
      by (simp add: show_nat_step show_nat_small)
    with 2 show ?thesis
      by (simp add: zfill_4 four_digits_def digit_char_0)
  next
    case 3
    then have "10 \<le> n div 10" "n div 10 < 100" by simp_all
    with 3 have "show_nat n = [digit_char (n div 10 div 10), digit_char (n div 10 mod 10),
        digit_char (n mod 10)]"
      by (simp add: show_nat_step [of n] show_nat_step [of "n div 10"] show_nat_small)
    moreover have "n div 10 div 10 = n div 100" by (simp add: div_mult2_eq [symmetric])
    moreover from 3 have "n div 100 mod 10 = n div 100" "n div 1000 = 0" by simp_all
    ultimately show ?thesis
      by (simp add: zfill_4 four_digits_def digit_char_0)
  next
    case 4
    with assms have a: "10 \<le> n div 10" "10 \<le> n div 10 div 10" "n div 10 div 10 div 10 < 10"
      by simp_all
    with 4 have "show_nat n = [digit_char (n div 10 div 10 div 10), digit_char (n div 10 div 10 mod 10),
        digit_char (n div 10 mod 10), digit_char (n mod 10)]"
      by (simp add: show_nat_step [of n] show_nat_step [of "n div 10"]
            show_nat_step [of "n div 10 div 10"] show_nat_small)
    moreover have "n div 10 div 10 = n div 100" "n div 10 div 10 div 10 = n div 1000"
      by (simp_all add: div_mult2_eq [symmetric])
    moreover from assms have "n div 1000 mod 10 = n div 1000" by simp
    ultimately show ?thesis
      by (simp add: zfill_4 four_digits_def)
  qed
qed

section \<open>Facts about the function-name rewrite\<close>




lemma countif_matcher_Some:
  "countif_matcher prev s = Some (rep, n) \<Longrightarrow> rep = ''countIf'' \<and> n = 7 \<and> startswith ''COUNTIf'' s"
  by (auto simp: countif_matcher_def split: if_splits)



lemma countif_sub_Nil: "re_sub countif_matcher prev [] = []"
  by simp














lemma countif_matcher_split:
  "countif_matcher prev s \<noteq> None \<longleftrightarrow>
     (case prev of None \<Rightarrow> True | Some p \<Rightarrow> \<not> is_word p)
     \<and> (\<exists>post. s = ''COUNTIf'' @ post \<and> (post = [] \<or> \<not> is_word (hd post)))"
proof -
  have "(case drop 7 s of [] \<Rightarrow> True | c # r \<Rightarrow> \<not> is_word c)
      \<longleftrightarrow> (post = [] \<or> \<not> is_word (hd post))" if "s = ''COUNTIf'' @ post" for post
    using that by (cases post) simp_all
  then show ?thesis
    unfolding countif_matcher_def by (auto simp: startswith_iff simp del: append_Cons)
qed









section \<open>No rewrite after pass 1 brings a bare facility comparison\<close>

lemma pattern_tails_tl: "p # ps \<in> set pattern_tails \<Longrightarrow> ps \<in> set pattern_tails"
  by (auto simp: pattern_tails_def)

lemma pattern_tails_Nil: "[] \<in> set pattern_tails" "''acility_id'' \<in> set pattern_tails"
  by (simp_all add: pattern_tails_def)

lemma rejectedD:
  assumes "rejected u"
  shows "\<not> digits_follow u" "ps \<in> set pattern_tails \<Longrightarrow> \<not> letters_follow ps u"
  using assms by (auto simp: rejected_def list_all_iff)

lemma re_sub_cases:
  "re_sub m prev (c # cs) = c # re_sub m (Some c) cs
   \<or> (\<exists>rep n. m prev (c # cs) = Some (rep, n) \<and> 0 < n
        \<and> re_sub m prev (c # cs)
            = rep @ re_sub m (Some (last (take n (c # cs)))) (drop n (c # cs)))"
  by (auto split: option.splits)

lemma tails_Cons:
  assumes "digits_follow out \<longrightarrow> digits_follow cs"
    and "\<forall>ps\<in>set pattern_tails. letters_follow ps out \<longrightarrow> letters_follow ps cs"
  shows "digits_follow (c # out) \<longrightarrow> digits_follow (c # cs)"
    and "\<forall>ps\<in>set pattern_tails. letters_follow ps (c # out) \<longrightarrow> letters_follow ps (c # cs)"
proof -
  from assms(1) show "digits_follow (c # out) \<longrightarrow> digits_follow (c # cs)" by simp
  show "\<forall>ps\<in>set pattern_tails. letters_follow ps (c # out) \<longrightarrow> letters_follow ps (c # cs)"
  proof
    fix ps assume ps: "ps \<in> set pattern_tails"
    show "letters_follow ps (c # out) \<longrightarrow> letters_follow ps (c # cs)"
    proof (cases ps)
      case Nil
      from assms(2) pattern_tails_Nil(1) have "equals_follows out \<longrightarrow> equals_follows cs"
        by fastforce
      with assms(1) Nil show ?thesis by simp
    next
      case (Cons p ps')
      with ps have "ps' \<in> set pattern_tails" by (simp add: pattern_tails_tl)
      with assms(2) Cons show ?thesis by simp
    qed
  qed
qed

lemma re_sub_tails:
  assumes rej: "\<And>prev s rep n x. m prev s = Some (rep, n) \<Longrightarrow> 0 < n \<Longrightarrow> rejected (rep @ x)"
  shows "(digits_follow (re_sub m prev s) \<longrightarrow> digits_follow s)
    \<and> (\<forall>ps\<in>set pattern_tails. letters_follow ps (re_sub m prev s) \<longrightarrow> letters_follow ps s)"
proof (induction s arbitrary: prev rule: length_induct)
  case (1 s)
  show ?case
  proof (cases s)
    case Nil
    then show ?thesis by simp
  next
    case (Cons c cs)
    from re_sub_cases [of m prev c cs] show ?thesis
    proof
      assume out: "re_sub m prev (c # cs) = c # re_sub m (Some c) cs"
      from 1 Cons have
        "digits_follow (re_sub m (Some c) cs) \<longrightarrow> digits_follow cs"
        "\<forall>ps\<in>set pattern_tails. letters_follow ps (re_sub m (Some c) cs) \<longrightarrow> letters_follow ps cs"
        by simp_all
      then have "digits_follow (c # re_sub m (Some c) cs) \<longrightarrow> digits_follow (c # cs)"
        "\<forall>ps\<in>set pattern_tails.
           letters_follow ps (c # re_sub m (Some c) cs) \<longrightarrow> letters_follow ps (c # cs)"
        by (rule tails_Cons)+
      then show ?thesis unfolding Cons out by blast
    next
      assume "\<exists>rep n. m prev (c # cs) = Some (rep, n) \<and> 0 < n
        \<and> re_sub m prev (c # cs)
            = rep @ re_sub m (Some (last (take n (c # cs)))) (drop n (c # cs))"
      then obtain rep n where m: "m prev (c # cs) = Some (rep, n)" "0 < n"
        and out: "re_sub m prev (c # cs)
            = rep @ re_sub m (Some (last (take n (c # cs)))) (drop n (c # cs))"
        by blast
      from m have "rejected (re_sub m prev (c # cs))" unfolding out by (rule rej)
      then show ?thesis unfolding Cons using rejectedD by blast
    qed
  qed
qed

lemma no_facility_match_drop: "no_facility_match s \<Longrightarrow> no_facility_match (drop n s)"
proof (induction s arbitrary: n)
  case Nil
  show ?case by simp
next
  case (Cons c cs)
  then show ?case by (cases n) simp_all
qed

lemma facility_pattern_Cons_None:
  assumes "facility_pattern (c # cs) = None"
    and "letters_follow ''acility_id'' out \<longrightarrow> letters_follow ''acility_id'' cs"
  shows "facility_pattern (c # out) = None"
proof -
  from assms(1) have "\<not> letters_follow ''facility_id'' (c # cs)"
    using facility_pattern_None_iff by blast
  with assms(2) have "\<not> letters_follow ''facility_id'' (c # out)" by auto
  then show ?thesis using facility_pattern_None_iff by blast
qed

lemma re_sub_no_match:
  assumes rej: "\<And>prev s rep n x. m prev s = Some (rep, n) \<Longrightarrow> 0 < n \<Longrightarrow> rejected (rep @ x)"
    and start: "\<And>prev s rep n x. m prev s = Some (rep, n) \<Longrightarrow> 0 < n \<Longrightarrow> no_facility_match x
      \<Longrightarrow> (letters_follow ''acility_id'' x \<longrightarrow> letters_follow ''acility_id'' (drop n s))
      \<Longrightarrow> no_facility_match (rep @ x)"
    and "no_facility_match s"
  shows "no_facility_match (re_sub m prev s)"
  using assms(3)
proof (induction s arbitrary: prev rule: length_induct)
  case (1 s)
  have tails: "(digits_follow (re_sub m prev s) \<longrightarrow> digits_follow s)
    \<and> (\<forall>ps\<in>set pattern_tails. letters_follow ps (re_sub m prev s) \<longrightarrow> letters_follow ps s)"
    for prev s
    by (rule re_sub_tails) (rule rej)
  show ?case
  proof (cases s)
    case Nil
    then show ?thesis by simp
  next
    case (Cons c cs)
    from 1(2) Cons have c: "facility_pattern (c # cs) = None" and cs: "no_facility_match cs"
      by simp_all
    from re_sub_cases [of m prev c cs] show ?thesis
    proof
      assume out: "re_sub m prev (c # cs) = c # re_sub m (Some c) cs"
      from 1(1) Cons cs have "no_facility_match (re_sub m (Some c) cs)" by simp
      moreover from tails [where prev = "Some c" and s = cs] pattern_tails_Nil(2)
      have "letters_follow ''acility_id'' (re_sub m (Some c) cs) \<longrightarrow> letters_follow ''acility_id'' cs"
        by blast
      with c have "facility_pattern (c # re_sub m (Some c) cs) = None"
        by (rule facility_pattern_Cons_None)
      ultimately show ?thesis unfolding Cons out by simp
    next
      assume "\<exists>rep n. m prev (c # cs) = Some (rep, n) \<and> 0 < n
        \<and> re_sub m prev (c # cs)
            = rep @ re_sub m (Some (last (take n (c # cs)))) (drop n (c # cs))"
      then obtain rep n where m: "m prev (c # cs) = Some (rep, n)" "0 < n"
        and out: "re_sub m prev (c # cs)
            = rep @ re_sub m (Some (last (take n (c # cs)))) (drop n (c # cs))"
        by blast
      let ?p = "Some (last (take n (c # cs)))" and ?r = "drop n (c # cs)"
      from m(2) have "length ?r < length s" by (simp add: Cons)
      moreover from 1(2) have "no_facility_match ?r"
        unfolding Cons by (rule no_facility_match_drop)
      ultimately have "no_facility_match (re_sub m ?p ?r)" using 1(1) by blast
      moreover from tails [where prev = ?p and s = ?r] pattern_tails_Nil(2)
      have "letters_follow ''acility_id'' (re_sub m ?p ?r) \<longrightarrow> letters_follow ''acility_id'' ?r"
        by blast
      ultimately have "no_facility_match (rep @ re_sub m ?p ?r)"
        using m by (intro start)
      then show ?thesis unfolding Cons out .
    qed
  qed
qed

lemma replace_no_match:
  assumes "inert new" "no_facility_match s"
  shows "no_facility_match (replace old new s)"
  unfolding replace_def
proof (rule re_sub_no_match [OF _ _ assms(2)])
  fix prev s rep n x
  assume "literal old new prev s = Some (rep, n)"
  then have rep: "rep = new" by (simp add: literal_def split: if_splits)
  from assms(1) show "rejected (rep @ x)" by (simp add: rep inert_def)
  assume "no_facility_match x"
  with assms(1) show "no_facility_match (rep @ x)" by (simp add: rep inert_def)
qed

lemma replace_ci_no_match:
  assumes "inert new" "no_facility_match s"
  shows "no_facility_match (re_sub (literal_ci old new) prev s)"
proof (rule re_sub_no_match [OF _ _ assms(2)])
  fix prev s rep n x
  assume "literal_ci old new prev s = Some (rep, n)"
  then have rep: "rep = new" by (simp add: literal_ci_def split: if_splits)
  from assms(1) show "rejected (rep @ x)" by (simp add: rep inert_def)
  assume "no_facility_match x"
  with assms(1) show "no_facility_match (rep @ x)" by (simp add: rep inert_def)
qed

lemma may_digits: "digits_follow (u @ x) \<Longrightarrow> may_digits u"
  by (induction u) (auto split: if_splits)

lemma may_equals: "equals_follows (u @ x) \<Longrightarrow> may_equals u"
  by (induction u) (auto split: if_splits dest: may_digits)

lemma may_letters: "letters_follow ps (u @ x) \<Longrightarrow> may_letters ps u"
proof (induction ps u rule: may_letters.induct)
  case (1 s)
  then show ?case by (simp add: may_equals)
next
  case (2 p ps)
  show ?case by simp
next
  case (3 p ps c cs)
  then show ?case by simp
qed

lemma rejected_text: "rejected_text rep \<Longrightarrow> rejected (rep @ x)"
  by (auto simp: rejected_text_def rejected_def list_all_iff dest: may_digits may_letters)

lemma no_start: "no_start u \<Longrightarrow> no_facility_match x \<Longrightarrow> no_facility_match (u @ x)"
proof (induction u)
  case Nil
  then show ?case by simp
next
  case (Cons c u)
  from Cons.prems(1) have "\<not> may_letters ''facility_id'' (c # u)" by simp
  then have "\<not> letters_follow ''facility_id'' ((c # u) @ x)"
    using may_letters by blast
  then have "facility_pattern (c # u @ x) = None"
    using facility_pattern_None_iff by simp
  with Cons show ?case by simp
qed

lemma inert_text: "inert_text rep \<Longrightarrow> inert rep"
  by (simp add: inert_text_def inert_def rejected_text no_start)

lemma inert_append:
  assumes "inert a" "\<forall>c\<in>set b. lower_char c \<noteq> CHR ''f''"
  shows "inert (a @ b)"
proof -
  have "rejected ((a @ b) @ x)" for x
    using assms(1) by (simp add: inert_def)
  moreover have "no_facility_match ((a @ b) @ x)" if "no_facility_match x" for x
  proof -
    from assms(2) that have "no_facility_match (b @ x)" by (rule no_facility_match_append)
    with assms(1) show ?thesis by (simp add: inert_def)
  qed
  ultimately show ?thesis by (simp add: inert_def)
qed

lemma inert_alone: "inert t \<Longrightarrow> rejected t \<and> no_facility_match t"
  unfolding inert_def
proof -
  assume a: "\<forall>x. rejected (t @ x) \<and> (no_facility_match x \<longrightarrow> no_facility_match (t @ x))"
  from a [rule_format, of "[]"] show ?thesis by simp
qed

section \<open>The passes after pass 1 keep a query free of bare facility comparisons\<close>

lemma re_sub_inert:
  assumes "\<And>prev s rep n. m prev s = Some (rep, n) \<Longrightarrow> inert rep" "no_facility_match s"
  shows "no_facility_match (re_sub m prev s)"
proof (rule re_sub_no_match [OF _ _ assms(2)])
  fix prev s rep n x
  assume "m prev s = Some (rep, n)"
  then have i: "inert rep" by (rule assms(1))
  then show "rejected (rep @ x)" by (simp add: inert_def)
  assume "no_facility_match x"
  with i show "no_facility_match (rep @ x)" by (simp add: inert_def)
qed

lemma no_match_tails_append:
  assumes "rejected t"
  shows "(digits_follow (a @ t) \<longrightarrow> digits_follow (a @ b))
    \<and> (\<forall>ps\<in>set pattern_tails. letters_follow ps (a @ t) \<longrightarrow> letters_follow ps (a @ b))"
proof (induction a)
  case Nil
  from assms show ?case using rejectedD by auto
next
  case (Cons c a)
  then have "digits_follow (a @ t) \<longrightarrow> digits_follow (a @ b)"
    "\<forall>ps\<in>set pattern_tails. letters_follow ps (a @ t) \<longrightarrow> letters_follow ps (a @ b)"
    by simp_all
  then have "digits_follow (c # a @ t) \<longrightarrow> digits_follow (c # a @ b)"
    "\<forall>ps\<in>set pattern_tails. letters_follow ps (c # a @ t) \<longrightarrow> letters_follow ps (c # a @ b)"
    by (rule tails_Cons)+
  then show ?case by simp
qed

lemma no_match_prefix_append:
  assumes "rejected t" "no_facility_match t"
  shows "no_facility_match (a @ b) \<Longrightarrow> no_facility_match (a @ t)"
proof (induction a)
  case Nil
  from assms(2) show ?case by simp
next
  case (Cons c a)
  from Cons.prems have c: "facility_pattern (c # a @ b) = None" and "no_facility_match (a @ b)"
    by simp_all
  with Cons.IH have "no_facility_match (a @ t)" by simp
  moreover from no_match_tails_append [OF assms(1), of a b] pattern_tails_Nil(2)
  have "letters_follow ''acility_id'' (a @ t) \<longrightarrow> letters_follow ''acility_id'' (a @ b)"
    by blast
  with c have "facility_pattern (c # a @ t) = None" by (rule facility_pattern_Cons_None)
  ultimately show ?case by simp
qed

lemma rstrip_append_no_match:
  assumes "inert t" "no_facility_match s"
  shows "no_facility_match (rstrip_chars c s @ t)"
proof -
  have "s = rstrip_chars c s @ rev (takeWhile (\<lambda>x. x = c) (rev s))"
    unfolding rstrip_chars_def rev_append [symmetric] by simp
  with assms(2) have "no_facility_match (rstrip_chars c s @ rev (takeWhile (\<lambda>x. x = c) (rev s)))"
    by simp
  moreover from assms(1) have "rejected t" "no_facility_match t"
    using inert_alone by blast+
  ultimately show ?thesis using no_match_prefix_append by blast
qed

subsection \<open>The shape of the definitions\<close>

lemma Let_any: "(\<And>x. no_facility_match (f x)) \<Longrightarrow> no_facility_match (Let a f)"
  by simp

lemma Let_keep:
  "no_facility_match a \<Longrightarrow> (\<And>x. no_facility_match x \<Longrightarrow> no_facility_match (f x))
   \<Longrightarrow> no_facility_match (Let a f)"
  by simp

lemma if_keep:
  "no_facility_match a \<Longrightarrow> no_facility_match b \<Longrightarrow> no_facility_match (if c then a else b)"
  by simp

lemma option_keep:
  "no_facility_match a \<Longrightarrow> (\<And>v. no_facility_match (f v))
   \<Longrightarrow> no_facility_match (case x of None \<Rightarrow> a | Some v \<Rightarrow> f v)"
  by (cases x) simp_all

subsection \<open>Pass 2\<close>

lemma lower_char_eq_a:
  assumes "lower_char c = CHR ''a''"
  shows "c = CHR ''a'' \<or> c = CHR ''A''"
proof -
  let ?k = "of_char c :: nat"
  let ?up = "(65 \<le> ?k \<and> ?k \<le> 90) \<or> (192 \<le> ?k \<and> ?k \<le> 214) \<or> (216 \<le> ?k \<and> ?k \<le> 222)"
  show ?thesis
  proof (cases ?up)
    case True
    then have "lower_char c = char_of (?k + 32)"
      by (simp only: lower_char_def Let_def if_True)
    with assms have "(of_char (char_of (?k + 32) :: char) :: nat) = of_char CHR ''a''"
      by simp
    then have "(?k + 32) mod 256 = 97" by (simp only: of_char_of) simp
    moreover from True have "?k + 32 < 256" by arith
    ultimately have "?k = 65" by simp
    then have "?k = of_char CHR ''A''" by simp
    then have "c = CHR ''A''" by (simp only: of_char_eq_iff)
    then show ?thesis ..
  next
    case False
    then have "lower_char c = c"
      by (simp only: lower_char_def Let_def if_False)
    with assms show ?thesis by simp
  qed
qed

lemma countif_rejected: "rejected (''countIf'' @ x)"
  by (rule rejected_text) code_simp

lemma countif_no_start: "no_start ''countI''"
  by code_simp

lemma countif_no_match:
  assumes "no_facility_match s"
  shows "no_facility_match (re_sub countif_matcher prev s)"
proof (rule re_sub_no_match [OF _ _ assms])
  fix prev s rep n x
  assume m: "countif_matcher prev s = Some (rep, n)"
  then have rep: "rep = ''countIf''" "n = 7" by (simp_all add: countif_matcher_Some)
  show "rejected (rep @ x)" unfolding rep by (rule countif_rejected)
  assume x: "no_facility_match x"
    and t: "letters_follow ''acility_id'' x \<longrightarrow> letters_follow ''acility_id'' (drop n s)"
  from m have "countif_matcher prev s \<noteq> None" by simp
  then obtain post where s: "s = ''COUNTIf'' @ post" and post: "post = [] \<or> \<not> is_word (hd post)"
    unfolding countif_matcher_split by blast
  have "\<not> letters_follow ''acility_id'' post"
  proof (cases post)
    case Nil
    then show ?thesis by simp
  next
    case (Cons c r)
    with post have "\<not> is_word c" by simp
    then have "c \<noteq> CHR ''a''" "c \<noteq> CHR ''A''" by (auto simp: is_word_def)
    then have "lower_char c \<noteq> CHR ''a''" using lower_char_eq_a by blast
    moreover have "lower_char CHR ''a'' = CHR ''a''" by (simp add: lower_char_def)
    ultimately show ?thesis by (simp add: Cons)
  qed
  with t have "\<not> letters_follow ''acility_id'' x" by (simp add: s rep)
  then have "\<not> letters_follow ''facility_id'' (CHR ''f'' # x)" by simp
  then have "facility_pattern (CHR ''f'' # x) = None" using facility_pattern_None_iff by blast
  with x have "no_facility_match (CHR ''f'' # x)" by simp
  with countif_no_start have "no_facility_match (''countI'' @ CHR ''f'' # x)" by (rule no_start)
  then show "no_facility_match (rep @ x)" by (simp add: rep)
qed

lemma inert_priority: "inert ''priority = 1''"
  by (rule inert_text) code_simp

lemma inert_avg_time: "inert avg_time_canonical"
  by (rule inert_text) code_simp

lemma inert_group_by: "inert ''GROUP BY porter_user_id ORDER BY''"
  by (rule inert_text) code_simp

lemma inert_group_by_end: "inert '' GROUP BY porter_user_id''"
  by (rule inert_text) code_simp

lemma avg_time_no_match:
  assumes "no_facility_match s"
  shows "no_facility_match (re_sub avg_time_matcher prev s)"
proof (rule re_sub_inert [OF _ assms])
  fix prev s rep n
  assume "avg_time_matcher prev s = Some (rep, n)"
  then have "rep = avg_time_canonical"
    by (simp add: avg_time_matcher_def Let_def split: if_splits)
  then show "inert rep" by (simp add: inert_avg_time)
qed

lemma add_group_by_no_match:
  "no_facility_match s \<Longrightarrow> no_facility_match (add_group_by s)"
  unfolding add_group_by_def
  by (intro if_keep replace_no_match rstrip_append_no_match inert_group_by inert_group_by_end)

lemma fix_sql_functions_no_match:
  assumes "no_facility_match s"
  shows "no_facility_match (fix_sql_functions s)"
  unfolding fix_sql_functions_def fix_countif_def
  apply (rule Let_keep)
   apply (rule countif_no_match)
   apply (rule assms)
  apply (rule Let_keep)
   apply (intro if_keep replace_no_match inert_priority; assumption)
  apply (rule Let_keep)
   apply (intro if_keep avg_time_no_match; assumption)
  apply (rule Let_keep)
   apply (intro if_keep add_group_by_no_match; assumption)
  apply (rule Let_keep)
   apply (intro if_keep add_group_by_no_match; assumption)
  apply assumption
  done

subsection \<open>Pass 3\<close>

lemma inert_null_or_empty:
  "inert (null_or_empty ''comp_manually'')" "inert (null_or_empty ''comments'')"
  "inert (null_or_empty ''remarks'')" "inert (null_or_empty ''porter_user_id'')"
  "inert (null_or_empty ''patient_id'')"
  by (rule inert_text, code_simp)+

lemma sub_is_null_no_match:
  assumes "inert (null_or_empty field)" "no_facility_match s"
  shows "no_facility_match (sub_is_null field s)"
  unfolding sub_is_null_def
proof (rule re_sub_inert [OF _ assms(2)])
  fix prev s rep n
  assume "map_option (\<lambda>n. (null_or_empty field, n)) (is_null_pattern field s) = Some (rep, n)"
  then have "rep = null_or_empty field" by auto
  with assms(1) show "inert rep" by simp
qed

lemma sub_eq_empty_no_match:
  assumes "inert (null_or_empty field)" "no_facility_match s"
  shows "no_facility_match (sub_eq_empty field s)"
  unfolding sub_eq_empty_def
proof (rule re_sub_inert [OF _ assms(2)])
  fix prev s rep n
  assume "map_option (\<lambda>n. (null_or_empty field, n)) (eq_empty_pattern field s) = Some (rep, n)"
  then have "rep = null_or_empty field" by auto
  with assms(1) show "inert rep" by simp
qed

lemma fix_null_empty_no_match:
  assumes "no_facility_match s"
  shows "no_facility_match (fix_null_empty_handling s q)"
  unfolding fix_null_empty_handling_def
  apply (rule Let_any)
  apply (rule if_keep)
   apply (rule Let_keep)
    apply (intro if_keep sub_is_null_no_match sub_eq_empty_no_match inert_null_or_empty assms)
   apply (simp only: fold_simps comp_apply id_apply)
   apply (intro if_keep sub_is_null_no_match sub_eq_empty_no_match inert_null_or_empty; assumption)
  apply (rule assms)
  done
subsection \<open>Pass 4\<close>

lemma inert_localized:
  "inert (''toDate('' @ to_timezone ''scheduled_time'' @ '')'')"
  "inert (''toDate('' @ to_timezone ''start_time'' @ '')'')"
  "inert (''toDate('' @ to_timezone ''end_time'' @ '')'')"
  "inert (''toDate('' @ to_timezone ''completed_time'' @ '')'')"
  "inert (''toDate('' @ to_timezone ''assigned_time'' @ '')'')"
  "inert ''toDate(toTimeZone(scheduled_time, 'Asia/Kolkata'))''"
  by (rule inert_text, code_simp)+

lemma inert_select_clause: "inert select_clause"
  by (rule inert_text) code_simp

lemma inert_dates:
  "inert (quoted ''2025-06-02'')" "inert (quoted ''2025-06-01'')" "inert (quoted ''2025-05-31'')"
  by (rule inert_text, code_simp)+

lemma inert_last_request: "inert '' ORDER BY scheduled_time DESC LIMIT 1''"
  by (rule inert_text) code_simp

lemma inert_hourly:
  "inert (''GROUP BY '' @ hour_expr @ '' ORDER BY hour_number'')"
  "inert (''concat(toString('' @ hour_expr @ ''), ':00 - ', toString(''
            @ hour_expr @ ''), ':59') AS time_range, '' @ hour_expr @ '' AS hour_number'')"
  by (rule inert_text, code_simp)+

lemma inert_group_by_day:
  "inert (''GROUP BY toDate('' @ to_timezone ''scheduled_time'' @ '') ORDER BY'')"
  by (rule inert_text) code_simp

lemma inert_month:
  "inert (''FROM fact_porter_request WHERE toYear(''
            @ to_timezone ''scheduled_time'' @ '') = 2025 AND toMonth(''
            @ to_timezone ''scheduled_time'' @ '') = '' @ show_nat k)"
proof -
  let ?base = "''FROM fact_porter_request WHERE toYear(''
            @ to_timezone ''scheduled_time'' @ '') = 2025 AND toMonth(''
            @ to_timezone ''scheduled_time'' @ '') = ''"
  have "inert ?base" by (rule inert_text) code_simp
  moreover have "\<forall>c\<in>set (show_nat k). lower_char c \<noteq> CHR ''f''"
  proof
    fix c assume "c \<in> set (show_nat k)"
    with show_nat_digits [of k] have d: "is_digit c" by simp
    then have "lower_char c = c" by (rule digit_classes)
    moreover from d have "c \<noteq> CHR ''f''" by (auto simp: is_digit_def)
    ultimately show "lower_char c \<noteq> CHR ''f''" by simp
  qed
  ultimately have "inert (?base @ show_nat k)" by (rule inert_append)
  then show ?thesis by simp
qed

lemma localize_no_match:
  "inert (''toDate('' @ to_timezone col @ '')'') \<Longrightarrow> no_facility_match s
   \<Longrightarrow> no_facility_match (localize_to_date col s)"
  unfolding localize_to_date_def by (rule replace_no_match)

lemma enhance_date_queries_no_match:
  assumes "no_facility_match s"
  shows "no_facility_match (enhance_date_queries s q)"
  unfolding enhance_date_queries_def
  apply (rule Let_any)
  apply (rule Let_keep)
   apply (intro localize_no_match inert_localized assms)
  apply (rule Let_keep)
   apply (simp only: fold_simps comp_apply id_apply)
   apply (intro localize_no_match inert_localized; assumption)
  apply (rule Let_keep)
   apply (intro if_keep replace_no_match inert_select_clause; assumption)
  apply (rule Let_keep)
   apply (rule if_keep)
    apply (rule Let_keep)
     apply (intro replace_no_match inert_dates; assumption)
    apply (rule Let_keep)
     apply (intro replace_no_match inert_dates; assumption)
    apply (rule Let_keep)
     apply (intro replace_no_match inert_dates; assumption)
    apply (intro if_keep replace_no_match inert_localized; assumption)
   apply assumption
  apply (rule Let_keep)
   apply (intro if_keep replace_no_match inert_dates; assumption)
  apply (rule Let_keep)
   apply (intro if_keep replace_ci_no_match replace_no_match inert_dates; assumption)
  apply (rule Let_keep)
   apply (intro if_keep rstrip_append_no_match inert_last_request; assumption)
  apply (rule Let_keep)
   apply (intro if_keep replace_no_match inert_hourly; assumption)
  apply (rule Let_keep)
   apply (rule option_keep)
    apply assumption
   apply (rule Let_any)
   apply (rule if_keep)
    apply (rule Let_keep)
     apply (intro replace_no_match inert_month; assumption)
    apply (intro if_keep replace_no_match inert_group_by_day; assumption)
   apply assumption
  apply assumption
  done

subsection \<open>The pipeline\<close>

lemma repair_pipeline_no_match: "no_facility_match (repair_pipeline s q)"
  unfolding repair_pipeline_def
  by (intro enhance_date_queries_no_match fix_null_empty_no_match fix_sql_functions_no_match
        fix_facility_no_match)



section \<open>The function-name rewrite changes nothing but whole words\<close>










section \<open>The chart decision refuses empty and large results\<close>

text \<open>
  C8. For every result table and every question, \<open>should_create_chart\<close> returns false
  when the table is empty and when it has more than 100 rows, whatever the question says,
  also when the question holds one of the words that otherwise force a chart.
\<close>

theorem chart_refused_when_empty_or_large:
  "df_empty df \<or> df_len df > 100 \<Longrightarrow> should_create_chart df question = False"
  by (simp add: should_create_chart_def)

text \<open>
  At 101 rows and on the empty table the decision is false for questions with the words
  \<open>hourly\<close>, \<open>patterns\<close>, \<open>daily\<close> and \<open>trends\<close>.
\<close>

theorem chart_refused_when_empty_or_large_witness:
  "should_create_chart
     \<lparr>df_columns = [(''request_hour'', True), (''request_count'', True)], df_len = 101\<rparr>
     ''Show hourly request patterns'' = False
   \<and> should_create_chart \<lparr>df_columns = [], df_len = 0\<rparr> ''Show daily trends'' = False"
  using chart_refused_when_empty_or_large
          [of "\<lparr>df_columns = [(''request_hour'', True), (''request_count'', True)], df_len = 101\<rparr>"
              "''Show hourly request patterns''"]
        chart_refused_when_empty_or_large
          [of "\<lparr>df_columns = [], df_len = 0\<rparr>" "''Show daily trends''"]
  by (simp add: df_empty_def)

text \<open>The same question on the same columns at exactly 100 rows does get its chart.\<close>

lemma chart_forced_at_ceiling:
  "should_create_chart
     \<lparr>df_columns = [(''request_hour'', True), (''request_count'', True)], df_len = 100\<rparr>
     ''Show hourly request patterns'' = True"
  by code_simp

section \<open>The interaction log is a queue of at most 200 entries\<close>

text \<open>
  C9. After every \<open>_log_interaction\<close> the history has at most 200 entries; it is the
  old history followed by the new entry, without its oldest entries when that makes more
  than 200, so that exactly the 200 most recent entries remain in the order of their
  insertion; the new entry is the last one.
\<close>

theorem log_bounded_fifo:
  "length (conversation_history (log_interaction entry st)) \<le> 200
   \<and> conversation_history (log_interaction entry st) =
       drop (length (conversation_history st) + 1 - 200) (conversation_history st @ [entry])
   \<and> (length (conversation_history st) + 1 > 200 \<longrightarrow>
        length (conversation_history (log_interaction entry st)) = 200)
   \<and> last (conversation_history (log_interaction entry st)) = entry"
  by (auto simp: log_interaction_def Let_def)

text \<open>
  With 200 entries in the history, logging one more drops the oldest entry and keeps the
  other 199 in their order, followed by the new one.
\<close>

theorem log_bounded_fifo_witness:
  "conversation_history
     (log_interaction
        \<lparr>log_timestamp = ''t2'', log_question = ''newest'', log_sql = None, log_row_count = None,
         log_success = False, log_error = Some ''e''\<rparr>
        \<lparr>conversation_history =
           \<lparr>log_timestamp = ''t0'', log_question = ''oldest'', log_sql = Some ''SELECT 1'',
            log_row_count = Some 1, log_success = True, log_error = None\<rparr>
           # replicate 199
               \<lparr>log_timestamp = ''t1'', log_question = ''later'', log_sql = Some ''SELECT 1'',
                log_row_count = Some 1, log_success = True, log_error = None\<rparr>,
         executed = []\<rparr>)
   = replicate 199
       \<lparr>log_timestamp = ''t1'', log_question = ''later'', log_sql = Some ''SELECT 1'',
        log_row_count = Some 1, log_success = True, log_error = None\<rparr>
     @ [\<lparr>log_timestamp = ''t2'', log_question = ''newest'', log_sql = None, log_row_count = None,
         log_success = False, log_error = Some ''e''\<rparr>]"
  using log_bounded_fifo
          [of "\<lparr>log_timestamp = ''t2'', log_question = ''newest'', log_sql = None,
                log_row_count = None, log_success = False, log_error = Some ''e''\<rparr>"
              "\<lparr>conversation_history =
                  \<lparr>log_timestamp = ''t0'', log_question = ''oldest'', log_sql = Some ''SELECT 1'',
                   log_row_count = Some 1, log_success = True, log_error = None\<rparr>
                  # replicate 199
                      \<lparr>log_timestamp = ''t1'', log_question = ''later'', log_sql = Some ''SELECT 1'',
                       log_row_count = Some 1, log_success = True, log_error = None\<rparr>,
                executed = []\<rparr>"]
  by simp

text \<open>The orchestrator changes the history through \<open>_log_interaction\<close> only.\<close>

lemma process_query_history_bounded:
  "length (conversation_history st) \<le> 200 \<Longrightarrow>
   length (conversation_history (snd (process_query env user_question row_limit st))) \<le> 200"
  by (auto simp: process_query_def failure_on_exception_def log_interaction_def Let_def
           split: prod.splits sum.splits)

section \<open>A failure of the text-generation service ends the request\<close>

text \<open>
  C5. When the call of the text-generation service raises, \<open>convert_to_sql\<close> returns
  the empty query with an error explanation, and \<open>process_query\<close> returns the failure
  with the message that the question could not be understood; the session is returned
  as it was, so no query has been handed to the executor.
\<close>

theorem translation_failure_stops_request:
  assumes "complete env user_question = Inl e"
  shows "convert_to_sql (complete env) user_question = ('''', Some (''Error generating SQL: '' @ e))
         \<and> process_query env user_question row_limit st =
             (\<lparr>res_success = False, res_error = Some ''Failed to generate SQL query'',
               res_summary = cross_mark @ '' Unable to understand your question. Please try rephrasing.'',
               res_sql = None, res_data = None, res_chart = None, res_explanation = None,
               res_row_count = None\<rparr>, st)
         \<and> executed (snd (process_query env user_question row_limit st)) = executed st"
  using assms by (simp add: convert_to_sql_def process_query_def)

theorem translation_failure_stops_request_witness:
  "executed
     (snd (process_query
             \<lparr>complete = (\<lambda>q. Inl ''Connection error.''), query_df = (\<lambda>q. Inr empty_dataframe),
              format_timezone = Inr, generate_summary = (\<lambda>df q. Inr ''ok''),
              create_chart = (\<lambda>df q. Inr None), now = ''2025-06-23T10:00:00''\<rparr>
             ''Show cancelled requests for facility 184'' (Some 50)
             \<lparr>conversation_history = [], executed = []\<rparr>)) = []"
  using translation_failure_stops_request
          [of "\<lparr>complete = (\<lambda>q. Inl ''Connection error.''), query_df = (\<lambda>q. Inr empty_dataframe),
                format_timezone = Inr, generate_summary = (\<lambda>df q. Inr ''ok''),
                create_chart = (\<lambda>df q. Inr None), now = ''2025-06-23T10:00:00''\<rparr>"
              "''Show cancelled requests for facility 184''" "''Connection error.''" "Some 50"
              "\<lparr>conversation_history = [], executed = []\<rparr>"]
  by simp

section \<open>Which outcomes reach the interaction log\<close>

text \<open>
  C2 says that every outcome of \<open>process_query\<close> appends one entry to the log. The
  success and the exception do; the two early returns do not. Here the service fails
  for one request and the database client for another, and the history stays empty.
\<close>

theorem failed_requests_not_logged:
  "conversation_history
     (snd (process_query
             \<lparr>complete = (\<lambda>q. Inl ''Connection error.''), query_df = (\<lambda>q. Inr empty_dataframe),
              format_timezone = Inr, generate_summary = (\<lambda>df q. Inr ''ok''),
              create_chart = (\<lambda>df q. Inr None), now = ''2025-06-23T10:00:00''\<rparr>
             ''Show cancelled requests for facility 184'' None
             \<lparr>conversation_history = [], executed = []\<rparr>)) = []
   \<and> conversation_history
       (snd (process_query
               \<lparr>complete = (\<lambda>q. Inr ''SELECT COUNT(*) FROM fact_porter_request''),
                query_df = (\<lambda>q. Inl ''Connection timed out''),
                format_timezone = Inr, generate_summary = (\<lambda>df q. Inr ''ok''),
                create_chart = (\<lambda>df q. Inr None), now = ''2025-06-23T10:00:00''\<rparr>
               ''How many requests are there?'' None
               \<lparr>conversation_history = [], executed = []\<rparr>)) = []"
  by (simp add: process_query_def convert_to_sql_def execute_query_def) code_simp

text \<open>The sibling branches: a success and an exception of the formatter are logged.\<close>

lemma success_and_exception_logged:
  assumes "convert_to_sql (complete env) user_question = (sql_query, explanation)"
    and "sql_query \<noteq> []"
    and "query_df env (limited_query sql_query row_limit) = Inr df"
  shows "length (conversation_history (snd (process_query env user_question row_limit st)))
           = min 200 (length (conversation_history st) + 1)"
  using assms
  by (auto simp: process_query_def execute_query_def failure_on_exception_def
        log_interaction_def Let_def split: sum.splits)

section \<open>A question and a query of no category have no explanation\<close>

text \<open>
  C3 says that \<open>_generate_explanation\<close> returns an explanation for every question and
  every query. For a question of the test suite of the repository, with the query that
  the test hands to the translator, the cascade reaches its last branch and the result
  is Python's \<open>None\<close>.
\<close>

theorem explanation_missing:
  "generate_explanation ''Who made the most requests?''
     ''SELECT * FROM fact_porter_request LIMIT 1'' = None"
  by code_simp

section \<open>Timestamp columns that the date pass leaves in storage time\<close>

text \<open>
  C4 says that the date pass localizes \<open>toDate(col)\<close> for each of the eleven timestamp
  columns. The pass rewrites five of them; a call on \<open>accepted_time\<close> is returned as it
  came.
\<close>

theorem to_date_not_localized:
  "enhance_date_queries
     ''SELECT COUNT(*) FROM fact_porter_request WHERE toDate(accepted_time) = today()''
     ''How many requests were accepted today?''
   = ''SELECT COUNT(*) FROM fact_porter_request WHERE toDate(accepted_time) = today()''"
  by code_simp

text \<open>The same call on \<open>assigned_time\<close>, one of the five, is localized.\<close>

lemma to_date_localized_assigned:
  "enhance_date_queries
     ''SELECT COUNT(*) FROM fact_porter_request WHERE toDate(assigned_time) = today()''
     ''How many requests were assigned today?''
   = ''SELECT COUNT(*) FROM fact_porter_request WHERE toDate(toTimeZone(assigned_time, 'Asia/Kolkata')) = today()''"
  by code_simp

section \<open>When the executor appends the row limit\<close>

text \<open>
  C10. For a positive limit, \<open>execute_query\<close> appends the \<open>LIMIT\<close> clause exactly when
  the stripped query starts with \<open>SELECT\<close> in upper case and the upper-cased query does
  not contain \<open>LIMIT\<close>. So a query that contains \<open>limit\<close> in any letter case and at any
  position, or that does not start with \<open>SELECT\<close>, is handed to the client as it came.
\<close>

theorem limit_clause:
  "limited_query query (Some l) =
     (if 0 < l \<and> startswith ''SELECT'' (upper (strip query)) \<and> \<not> contains ''LIMIT'' (upper query)
      then query @ '' LIMIT '' @ show_int l else query)
   \<and> (contains ''limit'' (lower query) \<longrightarrow> limited_query query limit = query)
   \<and> (\<not> startswith ''SELECT'' (upper (strip query)) \<longrightarrow> limited_query query limit = query)"
proof -
  have a: "limited_query query (Some l) =
     (if 0 < l \<and> startswith ''SELECT'' (upper (strip query)) \<and> \<not> contains ''LIMIT'' (upper query)
      then query @ '' LIMIT '' @ show_int l else query)"
    by (simp add: limited_query_def)
  have b: "limited_query query limit = query" if "contains ''limit'' (lower query)"
    using contains_limit_upper [OF that]
    by (cases limit) (simp_all add: limited_query_def)
  have c: "limited_query query limit = query" if "\<not> startswith ''SELECT'' (upper (strip query))"
    using that by (cases limit) (simp_all add: limited_query_def)
  from a b c show ?thesis by blast
qed

text \<open>
  A column alias that holds the word switches the row cap off; a query in lower case
  without the word gets its clause; a \<open>DESCRIBE\<close> does not.
\<close>

theorem limit_clause_witness:
  "limited_query ''SELECT porter_user_id AS limit_check FROM fact_porter_request'' (Some 50)
     = ''SELECT porter_user_id AS limit_check FROM fact_porter_request''
   \<and> limited_query ''DESCRIBE TABLE fact_porter_request'' (Some 50)
       = ''DESCRIBE TABLE fact_porter_request''
   \<and> limited_query '' select id from fact_porter_request'' (Some 50)
       = '' select id from fact_porter_request LIMIT 50''"
proof -
  have h1: "contains ''limit'' (lower ''SELECT porter_user_id AS limit_check FROM fact_porter_request'')"
    by code_simp
  have h2: "\<not> startswith ''SELECT'' (upper (strip ''DESCRIBE TABLE fact_porter_request''))"
    by code_simp
  have h3: "(0::int) < 50 \<and> startswith ''SELECT'' (upper (strip '' select id from fact_porter_request''))
            \<and> \<not> contains ''LIMIT'' (upper '' select id from fact_porter_request'')"
    by code_simp
  have h4: "show_int 50 = ''50''" by code_simp
  from h1 limit_clause [of "''SELECT porter_user_id AS limit_check FROM fact_porter_request''" 50 "Some 50"]
  have "limited_query ''SELECT porter_user_id AS limit_check FROM fact_porter_request'' (Some 50)
          = ''SELECT porter_user_id AS limit_check FROM fact_porter_request''"
    by blast
  moreover from h2 limit_clause [of "''DESCRIBE TABLE fact_porter_request''" 50 "Some 50"]
  have "limited_query ''DESCRIBE TABLE fact_porter_request'' (Some 50)
          = ''DESCRIBE TABLE fact_porter_request''"
    by blast
  moreover from h3 h4 limit_clause [of "'' select id from fact_porter_request''" 50 "Some 50"]
  have "limited_query '' select id from fact_porter_request'' (Some 50)
          = '' select id from fact_porter_request LIMIT 50''"
    by simp
  ultimately show ?thesis by blast
qed

section \<open>Pass 1 pads every bare facility identifier\<close>

text \<open>
  C1, as amended. Wherever a query holds the facility column (in any letter case), white
  space or none, the equals sign, white space or none, and the bare decimal numeral of a
  number \<open>N\<close> up to 9999 that no further digit follows, the identifier pass puts
  \<open>facility_id = 'dddd'\<close> in its place, \<open>dddd\<close> being \<open>N\<close> with four digits, and treats
  the text before and the text after on their own. And no later pass undoes this: the
  query that the four passes return, for any question, holds no bare facility comparison
  at any position.
\<close>

theorem facility_literal_padded:
  assumes "N \<le> 9999"
    and "lower fc = ''facility_id''"
    and "list_all is_space w1" and "list_all is_space w2"
    and "post = [] \<or> \<not> is_digit (hd post)"
  shows "fix_facility_id_format (pre @ fc @ w1 @ ''='' @ w2 @ show_nat N @ post)
           = fix_facility_id_format pre @ ''facility_id = '' @ [quote] @ four_digits N @ [quote]
               @ fix_facility_id_format post
         \<and> no_facility_match
             (repair_pipeline (pre @ fc @ w1 @ ''='' @ w2 @ show_nat N @ post) q)"
proof -
  define ds where "ds = show_nat N"
  define m where "m = fc @ w1 @ CHR ''='' # w2 @ ds"
  from assms(2) have len: "length fc = 11" by (auto simp: lower_def)
  with assms(2) obtain x xs where fc: "fc = x # xs" and x: "lower_char x = CHR ''f''"
    by (cases fc) (auto simp: lower_def)
  define r where "r = xs @ w1 @ CHR ''='' # w2 @ ds @ post"
  have mr: "m @ post = x # r" by (simp add: m_def r_def fc)
  from assms(3,4) have w: "\<forall>c\<in>set w1. is_space c" "\<forall>c\<in>set w2. is_space c"
    by (simp_all add: list_all_iff)
  have ds: "ds \<noteq> []" "\<forall>c\<in>set ds. is_digit c"
    using show_nat_digits [of N] by (simp_all add: ds_def)
  from len assms(2) w ds assms(5)
  have "facility_pattern (fc @ w1 @ CHR ''='' # w2 @ ds @ post)
      = Some (ds, length (fc @ w1 @ CHR ''='' # w2 @ ds))"
    by (rule facility_pattern_SomeI)
  then have "facility_pattern (m @ post) = Some (ds, length m)" by (simp add: m_def)
  then have "fix_facility_id_format (m @ post)
      = replace_facility_id ds @ fix_facility_id_format (drop (length m) (m @ post))"
    by (rule fix_facility_match)
  then have a: "fix_facility_id_format (x # r) = replace_facility_id ds @ fix_facility_id_format post"
    by (simp add: mr [symmetric])
  have "fix_facility_id_format (pre @ x # r) = fix_facility_id_format pre @ fix_facility_id_format (x # r)"
    using x by (rule fix_facility_append)
  with a have "fix_facility_id_format (pre @ m @ post)
      = fix_facility_id_format pre @ replace_facility_id ds @ fix_facility_id_format post"
    by (simp add: mr)
  moreover have "zfill 4 ds = four_digits N"
    unfolding ds_def using assms(1) by (rule zfill_show_nat)
  ultimately have "fix_facility_id_format (pre @ fc @ w1 @ ''='' @ w2 @ show_nat N @ post)
      = fix_facility_id_format pre @ ''facility_id = '' @ [quote] @ four_digits N @ [quote]
          @ fix_facility_id_format post"
    by (simp add: m_def ds_def replace_facility_id_def)
  moreover have "no_facility_match
      (repair_pipeline (pre @ fc @ w1 @ ''='' @ w2 @ show_nat N @ post) q)"
    by (rule repair_pipeline_no_match)
  ultimately show ?thesis by (rule conjI)
qed

text \<open>
  Two occurrences in one query, the second in upper case and without spaces; the later
  passes leave this query as pass 1 returns it.
\<close>

theorem facility_literal_padded_witness:
  "fix_facility_id_format
     ''SELECT * FROM fact_porter_request WHERE facility_id = 7 AND FACILITY_ID=184''
   = ''SELECT * FROM fact_porter_request WHERE facility_id = '0007' AND facility_id = '0184'' @ [quote]
   \<and> no_facility_match
       (repair_pipeline
          ''SELECT * FROM fact_porter_request WHERE facility_id = 7 AND FACILITY_ID=184''
          ''How many requests for facility 7?'')
   \<and> repair_pipeline
         ''SELECT * FROM fact_porter_request WHERE facility_id = 7 AND FACILITY_ID=184''
         ''How many requests for facility 7?''
       = ''SELECT * FROM fact_porter_request WHERE facility_id = '0007' AND facility_id = '0184'' @ [quote]"
proof -
  have h: "(7::nat) \<le> 9999" "lower ''facility_id'' = ''facility_id''" "list_all is_space '' ''"
    "'' AND FACILITY_ID=184'' = [] \<or> \<not> is_digit (hd '' AND FACILITY_ID=184'')"
    by (simp_all add: lower_def lower_char_def is_space_def is_digit_def)
  have e: "show_nat 7 = ''7''" "four_digits 7 = ''0007''"
    "fix_facility_id_format ''SELECT * FROM fact_porter_request WHERE ''
       = ''SELECT * FROM fact_porter_request WHERE ''"
    "fix_facility_id_format '' AND FACILITY_ID=184'' = '' AND facility_id = '0184'' @ [quote]"
    by code_simp+
  have p: "repair_pipeline
         ''SELECT * FROM fact_porter_request WHERE facility_id = 7 AND FACILITY_ID=184''
         ''How many requests for facility 7?''
       = ''SELECT * FROM fact_porter_request WHERE facility_id = '0007' AND facility_id = '0184'' @ [quote]"
    by code_simp
  from facility_literal_padded [OF h(1,2,3,3,4),
      where pre = "''SELECT * FROM fact_porter_request WHERE ''"
        and q = "''How many requests for facility 7?''"]
  have "fix_facility_id_format
     ''SELECT * FROM fact_porter_request WHERE facility_id = 7 AND FACILITY_ID=184''
   = ''SELECT * FROM fact_porter_request WHERE facility_id = '0007' AND facility_id = '0184'' @ [quote]
   \<and> no_facility_match
       (repair_pipeline
          ''SELECT * FROM fact_porter_request WHERE facility_id = 7 AND FACILITY_ID=184''
          ''How many requests for facility 7?'')"
    by (simp add: e)
  with p show ?thesis by blast
qed

text \<open>
  C1 as stated also says that the padded comparison is in the query that the four passes
  return. Pass 2 replaces every text of the shape
  \<open>round(AVG(dateDiff(...))/60.0, 2) AS avg_time_minutes\<close> by its canonical form, with
  whatever stands between the parentheses: a facility comparison there is padded by pass
  1 and then gone from the repaired query.
\<close>

theorem facility_literal_lost_in_pipeline:
  "contains ''facility_id = 7''
     ''SELECT round(AVG(dateDiff(facility_id = 7))/60.0, 2) AS avg_time_minutes FROM fact_porter_request''
   \<and> repair_pipeline
       ''SELECT round(AVG(dateDiff(facility_id = 7))/60.0, 2) AS avg_time_minutes FROM fact_porter_request''
       ''What is the average time for facility 7?''
     = ''SELECT round(AVG(dateDiff('second', scheduled_time, completed_time))/60.0, 2) AS avg_time_minutes FROM fact_porter_request''"
  by code_simp

section \<open>The function-name rewrite changes whole words and nothing else\<close>




section \<open>Pass 1 changes no repaired query; each rewrite is idempotent\<close>




end
